theory Spec2Isabelle
  imports Main "HOL-Library.Word"
begin

unbundle bit_operations_syntax

section \<open>Machine types and constants of allocator.c\<close>

text \<open>
  Header fields are \<open>unsigned int\<close> (32-bit words), \<open>size_t\<close> values are 64-bit words,
  and a \<open>void *\<close> is an address, kept as a natural number. The heap segment is a store of
  4-byte cells; a pointer stored in memory occupies two cells, low half first.
\<close>

type_synonym u32 = "32 word"
type_synonym size_t = "64 word"
type_synonym addr = nat

definition ALIGNMENT :: size_t where "ALIGNMENT = 8"
definition SIZE_MASK :: u32 where "SIZE_MASK = 0x7ffffffc"
definition FREE_MASK :: u32 where "FREE_MASK = 0x80000000"
definition PREV_FREE :: u32 where "PREV_FREE = 0x00000001"
definition NEXT_FREE :: u32 where "NEXT_FREE = 0x00000002"
definition INIT_MASK :: u32 where "INIT_MASK = 0xfffffffe"
definition NUM_BUCKETS :: int where "NUM_BUCKETS = 15"
definition INT_BITS :: int where "INT_BITS = 32"
definition INIT_PAGES :: nat where "INIT_PAGES = 1"

text \<open>\<open>sizeof(headerT)\<close> under \<open>#pragma pack(1)\<close>, and \<open>sizeof(void *)\<close>.\<close>

definition HDR :: nat where "HDR = 8"
definition PTR :: nat where "PTR = 8"

text \<open>Modelled from the spec: \<open>PAGE_SIZE\<close> comes from segment.h, which is not part of the
  sources; the spec gives 4096.\<close>

definition PAGE_SIZE :: nat where "PAGE_SIZE = 4096"

section \<open>Outcomes\<close>

text \<open>
  A call either returns, or stops: on an access outside the mapped segment, on an index
  outside the \<open>buckets\<close> array, or because a loop used up its fuel (every \<open>while\<close>
  loop of the source gets \<open>fuel\<close> iterations).
\<close>

datatype stop = SegFault | BadIndex | OutOfFuel

definition bnd :: "stop + 'a \<Rightarrow> ('a \<Rightarrow> stop + 'b) \<Rightarrow> stop + 'b" where
  "bnd m f = (case m of Inl e \<Rightarrow> Inl e | Inr v \<Rightarrow> f v)"

section \<open>The state: the segment and the three globals\<close>

record heap =
  mem :: "addr \<Rightarrow> u32"
  buckets :: "nat \<Rightarrow> addr"
  max_block :: addr
  min_block :: addr
  seg_base :: addr
  seg_pages :: nat
  seg_limit :: nat

text \<open>An access is to one aligned 4-byte cell inside the pages the segment holds.\<close>

definition mapped :: "heap \<Rightarrow> addr \<Rightarrow> bool" where
  "mapped s a \<longleftrightarrow> 4 dvd a \<and> seg_base s \<le> a \<and> a + 4 \<le> seg_base s + PAGE_SIZE * seg_pages s"

definition rd32 :: "heap \<Rightarrow> addr \<Rightarrow> stop + u32" where
  "rd32 s a = (if mapped s a then Inr (mem s a) else Inl SegFault)"

definition wr32 :: "heap \<Rightarrow> addr \<Rightarrow> u32 \<Rightarrow> stop + heap" where
  "wr32 s a v = (if mapped s a then Inr (s\<lparr>mem := (mem s)(a := v)\<rparr>) else Inl SegFault)"

definition rdptr :: "heap \<Rightarrow> addr \<Rightarrow> stop + addr" where
  "rdptr s a = bnd (rd32 s a) (\<lambda>lo. bnd (rd32 s (a + 4)) (\<lambda>hi.
     Inr (unat lo + 2 ^ 32 * unat hi)))"

definition wrptr :: "heap \<Rightarrow> addr \<Rightarrow> addr \<Rightarrow> stop + heap" where
  "wrptr s a p = bnd (wr32 s a (of_nat p)) (\<lambda>s1. wr32 s1 (a + 4) (of_nat (p div 2 ^ 32)))"

definition get_bucket :: "heap \<Rightarrow> int \<Rightarrow> stop + addr" where
  "get_bucket s i = (if 0 \<le> i \<and> i < NUM_BUCKETS then Inr (buckets s (nat i)) else Inl BadIndex)"

definition set_bucket :: "heap \<Rightarrow> int \<Rightarrow> addr \<Rightarrow> stop + heap" where
  "set_bucket s i p =
     (if 0 \<le> i \<and> i < NUM_BUCKETS then Inr (s\<lparr>buckets := (buckets s)(nat i := p)\<rparr>)
      else Inl BadIndex)"

subsection \<open>The segment provider\<close>

text \<open>Modelled from the spec: segment.c is not part of the sources. \<open>init_heap_segment n\<close>
  resets the segment to \<open>n\<close> pages and returns its base, \<open>extend_heap_segment n\<close> adds
  \<open>n\<close> pages after the present end and returns where they start; each returns NULL when
  the provider refuses, which here is when \<open>seg_limit\<close> pages would be exceeded.\<close>

definition init_heap_segment :: "heap \<Rightarrow> nat \<Rightarrow> heap \<times> addr" where
  "init_heap_segment s n =
     (if n \<le> seg_limit s then (s\<lparr>seg_pages := n\<rparr>, seg_base s) else (s, 0))"

definition extend_heap_segment :: "heap \<Rightarrow> nat \<Rightarrow> heap \<times> addr" where
  "extend_heap_segment s n =
     (if seg_pages s + n \<le> seg_limit s
      then (s\<lparr>seg_pages := seg_pages s + n\<rparr>, seg_base s + PAGE_SIZE * seg_pages s)
      else (s, 0))"

section \<open>Header codec and block navigation\<close>

definition roundup :: "size_t \<Rightarrow> size_t \<Rightarrow> size_t" where
  "roundup sz mult = (sz + mult - 1) AND NOT (mult - 1)"

definition hdr_for_payload :: "addr \<Rightarrow> addr" where
  "hdr_for_payload payload = payload - HDR"

definition payload_for_hdr :: "addr \<Rightarrow> addr" where
  "payload_for_hdr header = header + HDR"

definition set_payload_size :: "heap \<Rightarrow> addr \<Rightarrow> u32 \<Rightarrow> stop + heap" where
  "set_payload_size s payload v = wr32 s (hdr_for_payload payload) v"

definition set_prevpayload_size :: "heap \<Rightarrow> addr \<Rightarrow> u32 \<Rightarrow> stop + heap" where
  "set_prevpayload_size s payload v = wr32 s (hdr_for_payload payload + 4) v"

definition get_size :: "heap \<Rightarrow> addr \<Rightarrow> stop + u32" where
  "get_size s payload = bnd (rd32 s (hdr_for_payload payload)) (\<lambda>v. Inr (v AND SIZE_MASK))"

definition get_payloadsz :: "heap \<Rightarrow> addr \<Rightarrow> stop + u32" where
  "get_payloadsz s payload = rd32 s (hdr_for_payload payload)"

definition get_prev_size :: "heap \<Rightarrow> addr \<Rightarrow> stop + u32" where
  "get_prev_size s payload =
     bnd (rd32 s (hdr_for_payload payload + 4)) (\<lambda>v. Inr (v AND SIZE_MASK))"

text \<open>\<open>__builtin_clz\<close>: the number of zero bits above the highest set bit. The C builtin
  is undefined at 0; the model counts all 32 bits there.\<close>

fun clz_from :: "nat \<Rightarrow> u32 \<Rightarrow> nat" where
  "clz_from 0 w = 0"
| "clz_from (Suc n) w = (if bit w n then 0 else Suc (clz_from n w))"

definition builtin_clz :: "u32 \<Rightarrow> nat" where
  "builtin_clz w = clz_from 32 w"

definition cal_bucket :: "u32 \<Rightarrow> int" where
  "cal_bucket v =
     (let bucket = INT_BITS - int (builtin_clz v)
      in if bucket \<ge> NUM_BUCKETS + 2 then NUM_BUCKETS - 1 else bucket - 3)"

definition set_next_in_list :: "heap \<Rightarrow> addr \<Rightarrow> addr \<Rightarrow> stop + heap" where
  "set_next_in_list s payload dest = wrptr s payload dest"

definition set_prev_in_list :: "heap \<Rightarrow> addr \<Rightarrow> addr \<Rightarrow> stop + heap" where
  "set_prev_in_list s payload dest = wrptr s (payload + PTR) dest"

definition get_next_in_list :: "heap \<Rightarrow> addr \<Rightarrow> stop + addr" where
  "get_next_in_list s payload = rdptr s payload"

definition get_prev_in_list :: "heap \<Rightarrow> addr \<Rightarrow> stop + addr" where
  "get_prev_in_list s payload = rdptr s (payload + PTR)"

text \<open>\<open>get_next\<close> yields the address of the next block's header, \<open>get_prev\<close> the payload of
  the block below.\<close>

definition get_next :: "heap \<Rightarrow> addr \<Rightarrow> stop + addr" where
  "get_next s block = bnd (get_size s block) (\<lambda>sz. Inr (block + unat sz))"

definition get_prev :: "heap \<Rightarrow> addr \<Rightarrow> stop + addr" where
  "get_prev s block = bnd (get_prev_size s block) (\<lambda>sz. Inr (hdr_for_payload block - unat sz))"

definition set_prevfree :: "heap \<Rightarrow> addr \<Rightarrow> stop + heap" where
  "set_prevfree s block = bnd (get_next s block) (\<lambda>h. bnd (rd32 s h) (\<lambda>v.
     wr32 s h (v OR PREV_FREE)))"

definition set_nextfree :: "heap \<Rightarrow> addr \<Rightarrow> stop + heap" where
  "set_nextfree s block = bnd (get_prev s block) (\<lambda>p. bnd (get_payloadsz s p) (\<lambda>v.
     set_payload_size s p (v OR NEXT_FREE)))"

definition set_free :: "heap \<Rightarrow> addr \<Rightarrow> stop + heap" where
  "set_free s payload = bnd (get_payloadsz s payload) (\<lambda>v.
     set_payload_size s payload (v OR FREE_MASK))"

definition is_free :: "heap \<Rightarrow> addr \<Rightarrow> stop + bool" where
  "is_free s payload = bnd (get_size s payload) (\<lambda>v. Inr (v AND FREE_MASK \<noteq> 0))"

definition has_next_free :: "heap \<Rightarrow> addr \<Rightarrow> stop + bool" where
  "has_next_free s payload = bnd (get_payloadsz s payload) (\<lambda>v. Inr (v AND NEXT_FREE \<noteq> 0))"

definition has_prev_free :: "heap \<Rightarrow> addr \<Rightarrow> stop + bool" where
  "has_prev_free s payload = bnd (get_payloadsz s payload) (\<lambda>v. Inr (v AND PREV_FREE \<noteq> 0))"

definition clear_buckets :: "heap \<Rightarrow> heap" where
  "clear_buckets s = s\<lparr>buckets := (\<lambda>i. 0)\<rparr>"

section \<open>The free-list index\<close>

definition remove_from_list :: "heap \<Rightarrow> addr \<Rightarrow> int \<Rightarrow> stop + heap" where
  "remove_from_list s cur bucket_num =
     bnd (get_prev_in_list s cur) (\<lambda>prev_free.
     bnd (get_next_in_list s cur) (\<lambda>next_free.
     bnd (if prev_free \<noteq> 0 then set_next_in_list s prev_free next_free
          else set_bucket s bucket_num next_free) (\<lambda>s1.
     if next_free \<noteq> 0 then set_prev_in_list s1 next_free prev_free else Inr s1)))"

text \<open>The inner \<open>while\<close> loop of \<open>get_free_space\<close> over one bucket's list: the first
  block of at least the requested size is unlinked and returned.\<close>

fun scan_bucket :: "nat \<Rightarrow> heap \<Rightarrow> int \<Rightarrow> addr \<Rightarrow> size_t \<Rightarrow> stop + (heap \<times> addr) option" where
  "scan_bucket 0 s i cur requestedsz = Inl OutOfFuel"
| "scan_bucket (Suc fuel) s i cur requestedsz =
     (if cur = 0 then Inr None
      else bnd (get_size s cur) (\<lambda>sz.
        if ucast sz \<ge> requestedsz
        then bnd (remove_from_list s cur i) (\<lambda>s1. Inr (Some (s1, cur)))
        else bnd (get_next_in_list s cur) (\<lambda>nxt. scan_bucket fuel s i nxt requestedsz)))"

text \<open>The outer \<open>for\<close> loop, over the bucket numbers from \<open>bucket\<close> up to
  \<open>NUM_BUCKETS - 1\<close>. The out-parameter \<open>bucketNo\<close> is never read by the caller and is
  left out.\<close>

fun scan_buckets :: "nat \<Rightarrow> heap \<Rightarrow> int list \<Rightarrow> size_t \<Rightarrow> stop + (heap \<times> addr)" where
  "scan_buckets fuel s [] requestedsz = Inr (s, 0)"
| "scan_buckets fuel s (i # rest) requestedsz =
     bnd (get_bucket s i) (\<lambda>cur.
     bnd (scan_bucket fuel s i cur requestedsz) (\<lambda>r.
       case r of Some found \<Rightarrow> Inr found
       | None \<Rightarrow> scan_buckets fuel s rest requestedsz))"

definition get_free_space :: "nat \<Rightarrow> heap \<Rightarrow> int \<Rightarrow> size_t \<Rightarrow> stop + (heap \<times> addr)" where
  "get_free_space fuel s bucket requestedsz = scan_buckets fuel s [bucket .. NUM_BUCKETS - 1] requestedsz"

section \<open>Coalescing\<close>

text \<open>The three merging branches of \<open>coalesce\<close>, each given \<open>ptr_size\<close>.\<close>

definition coalesce_up :: "heap \<Rightarrow> addr \<Rightarrow> u32 \<Rightarrow> stop + (heap \<times> addr)" where
  "coalesce_up s ptr ptr_size =
     bnd (get_next s ptr) (\<lambda>h. let next_block = payload_for_hdr h in
     bnd (get_size s next_block) (\<lambda>next_size. let bucket = cal_bucket next_size in
     bnd (if unat next_size \<ge> 2 * PTR then remove_from_list s next_block bucket else Inr s) (\<lambda>s1.
     let new_size = ptr_size + next_size + of_nat HDR in
     bnd (get_payloadsz s1 next_block) (\<lambda>nv.
     bnd (set_payload_size s1 ptr (new_size OR (nv AND NEXT_FREE))) (\<lambda>s2.
     bnd (if next_block < max_block s2
          then bnd (get_next s2 next_block) (\<lambda>h2.
               set_prevpayload_size s2 (payload_for_hdr h2) new_size)
          else Inr s2) (\<lambda>s3.
     Inr (if next_block = max_block s3 then s3\<lparr>max_block := ptr\<rparr> else s3, ptr)))))))"

definition coalesce_down :: "heap \<Rightarrow> addr \<Rightarrow> u32 \<Rightarrow> stop + (heap \<times> addr)" where
  "coalesce_down s ptr ptr_size =
     bnd (get_prev s ptr) (\<lambda>prev_block.
     bnd (get_size s prev_block) (\<lambda>prev_size. let bucket = cal_bucket prev_size in
     bnd (if unat prev_size \<ge> 2 * PTR then remove_from_list s prev_block bucket else Inr s) (\<lambda>s1.
     let new_size = ptr_size + prev_size + of_nat HDR in
     bnd (get_payloadsz s1 prev_block) (\<lambda>pv.
     bnd (set_payload_size s1 prev_block (new_size OR (pv AND PREV_FREE))) (\<lambda>s2.
     bnd (if ptr < max_block s2
          then bnd (get_next s2 ptr) (\<lambda>h2.
               set_prevpayload_size s2 (payload_for_hdr h2) new_size)
          else Inr s2) (\<lambda>s3.
     Inr (if ptr = max_block s3 then s3\<lparr>max_block := prev_block\<rparr> else s3, prev_block)))))))"

definition coalesce_both :: "heap \<Rightarrow> addr \<Rightarrow> u32 \<Rightarrow> stop + (heap \<times> addr)" where
  "coalesce_both s ptr ptr_size =
     bnd (get_prev s ptr) (\<lambda>prev_block.
     bnd (get_size s prev_block) (\<lambda>prev_size.
     bnd (get_next s ptr) (\<lambda>h. let next_block = payload_for_hdr h in
     bnd (get_size s next_block) (\<lambda>next_size.
     bnd (if unat next_size \<ge> 2 * PTR
          then remove_from_list s next_block (cal_bucket next_size) else Inr s) (\<lambda>s1.
     bnd (if unat prev_size \<ge> 2 * PTR
          then remove_from_list s1 prev_block (cal_bucket prev_size) else Inr s1) (\<lambda>s2.
     let new_size = prev_size + of_nat HDR + ptr_size + of_nat HDR + next_size in
     bnd (get_size s2 prev_block) (\<lambda>pv.
     bnd (set_payload_size s2 prev_block (new_size OR (pv AND PREV_FREE))) (\<lambda>s3.
     bnd (if next_block < max_block s3
          then bnd (get_next s3 next_block) (\<lambda>h2.
               set_prevpayload_size s3 (payload_for_hdr h2) new_size)
          else Inr s3) (\<lambda>s4.
     Inr (if next_block = max_block s4 then s4\<lparr>max_block := prev_block\<rparr> else s4,
          prev_block))))))))))"

definition coalesce :: "heap \<Rightarrow> addr \<Rightarrow> stop + (heap \<times> addr)" where
  "coalesce s ptr =
     bnd (has_prev_free s ptr) (\<lambda>prev_is_free.
     bnd (has_next_free s ptr) (\<lambda>next_is_free.
     bnd (get_size s ptr) (\<lambda>ptr_size.
     if \<not> prev_is_free \<and> \<not> next_is_free then Inr (s, ptr)
     else if \<not> prev_is_free \<and> next_is_free then coalesce_up s ptr ptr_size
     else if \<not> next_is_free \<and> prev_is_free then coalesce_down s ptr ptr_size
     else coalesce_both s ptr ptr_size)))"

section \<open>free\<close>

text \<open>The two head-insert branches of \<open>myfree\<close> run the same four statements.\<close>

definition head_insert :: "heap \<Rightarrow> addr \<Rightarrow> int \<Rightarrow> addr \<Rightarrow> stop + heap" where
  "head_insert s ptr bucket bucketFirst =
     bnd (set_prev_in_list s ptr 0) (\<lambda>s1.
     bnd (set_next_in_list s1 ptr bucketFirst) (\<lambda>s2.
     bnd (if bucketFirst \<noteq> 0 then set_prev_in_list s2 bucketFirst ptr else Inr s2) (\<lambda>s3.
     set_bucket s3 bucket ptr)))"

text \<open>The \<open>while\<close> loop of \<open>myfree\<close>: it leaves with \<open>prev\<close> and \<open>cur\<close>.\<close>

fun free_walk :: "nat \<Rightarrow> heap \<Rightarrow> addr \<Rightarrow> addr \<Rightarrow> addr \<Rightarrow> stop + (addr \<times> addr)" where
  "free_walk 0 s ptr prev cur = Inl OutOfFuel"
| "free_walk (Suc fuel) s ptr prev cur =
     (if cur = 0 then Inr (prev, cur)
      else bnd (get_size s cur) (\<lambda>cs. bnd (get_size s ptr) (\<lambda>ps.
        if cs \<ge> ps then Inr (prev, cur)
        else bnd (get_next_in_list s cur) (\<lambda>nxt. free_walk fuel s ptr cur nxt))))"

text \<open>The statements of \<open>myfree\<close> from \<open>// get bucket\<close> on.\<close>

definition free_insert :: "nat \<Rightarrow> heap \<Rightarrow> addr \<Rightarrow> stop + heap" where
  "free_insert fuel s ptr =
     bnd (get_size s ptr) (\<lambda>sz. let bucket = cal_bucket sz in
     bnd (get_bucket s bucket) (\<lambda>bucketFirst. let cur = bucketFirst in
     if cur = 0 then head_insert s ptr bucket bucketFirst
     else bnd (get_size s cur) (\<lambda>cs. bnd (get_size s ptr) (\<lambda>ps.
       if cs > ps then head_insert s ptr bucket bucketFirst
       else
         bnd (free_walk fuel s ptr cur cur) (\<lambda>(prev, cur).
         bnd (if cur \<noteq> 0 then set_prev_in_list s cur ptr else Inr s) (\<lambda>s1.
         bnd (set_next_in_list s1 ptr cur) (\<lambda>s2.
         bnd (if prev \<noteq> 0 then set_prev_in_list s2 ptr prev else Inr s2) (\<lambda>s3.
         if prev \<noteq> 0 then set_next_in_list s3 prev ptr else Inr s3))))))))"

definition myfree :: "nat \<Rightarrow> heap \<Rightarrow> addr \<Rightarrow> stop + heap" where
  "myfree fuel s ptr =
     (if ptr = 0 then Inr s
      else
        bnd (coalesce s ptr) (\<lambda>(s1, ptr).
        bnd (if ptr < max_block s1 then set_prevfree s1 ptr else Inr s1) (\<lambda>s2.
        bnd (if ptr \<noteq> min_block s2 then set_nextfree s2 ptr else Inr s2) (\<lambda>s3.
        bnd (set_free s3 ptr) (\<lambda>s4.
        free_insert fuel (if ptr > max_block s4 then s4\<lparr>max_block := ptr\<rparr> else s4) ptr)))))"

section \<open>init\<close>

definition myinit :: "heap \<Rightarrow> stop + (heap \<times> bool)" where
  "myinit s =
     (let s0 = clear_buckets s;
          (s1, first) = init_heap_segment s0 INIT_PAGES
      in if first = 0 then Inr (s1, False)
         else
           let first = payload_for_hdr first;
               s2 = s1\<lparr>max_block := first, min_block := first\<rparr>
           in
           bnd (set_payload_size s2 first (of_nat (INIT_PAGES * PAGE_SIZE - HDR) OR FREE_MASK)) (\<lambda>s3.
           bnd (set_prevpayload_size s3 first INIT_MASK) (\<lambda>s4.
           bnd (get_size s4 first) (\<lambda>sz. let bucket = cal_bucket sz in
           bnd (set_next_in_list s4 first 0) (\<lambda>s5.
           bnd (set_prev_in_list s5 first 0) (\<lambda>s6.
           bnd (set_bucket s6 bucket first) (\<lambda>s7.
           Inr (s7, True))))))))"

section \<open>alloc\<close>

text \<open>\<open>size_left\<close> is an \<open>int\<close>: the \<open>size_t\<close> difference cut to 32 bits, and widened
  again (with its sign) where it meets a \<open>size_t\<close>.\<close>

definition get_new_page :: "nat \<Rightarrow> heap \<Rightarrow> size_t \<Rightarrow> stop + (heap \<times> addr)" where
  "get_new_page fuel s requestedsz =
     (let npages = roundup (requestedsz + of_nat HDR) (of_nat PAGE_SIZE) div of_nat PAGE_SIZE;
          (s0, header) = extend_heap_segment s (unat npages);
          page = payload_for_hdr header
      in
      bnd (set_payload_size s0 page (ucast requestedsz)) (\<lambda>s1.
      bnd (get_size s1 (max_block s1)) (\<lambda>msz.
      bnd (set_prevpayload_size s1 page msz) (\<lambda>s2.
      bnd (get_size s2 (max_block s2)) (\<lambda>msz2.
      bnd (if msz2 AND FREE_MASK \<noteq> 0 then set_prevfree s2 page else Inr s2) (\<lambda>s3.
      let size_left = (ucast (npages * of_nat PAGE_SIZE - requestedsz - of_nat HDR) :: u32) in
      if size_left = 0 then Inr (s3\<lparr>max_block := page\<rparr>, page)
      else if (scast size_left :: size_t) < of_nat (HDR + 2 * PTR) then
        bnd (get_next s3 page) (\<lambda>h. let next_free = payload_for_hdr h in
        bnd (set_payload_size s3 next_free
               (ucast (npages * of_nat PAGE_SIZE - requestedsz - 2 * of_nat HDR) OR FREE_MASK)) (\<lambda>s4.
        bnd (set_prevpayload_size s4 next_free (ucast requestedsz)) (\<lambda>s5.
        bnd (set_nextfree s5 next_free) (\<lambda>s6.
        Inr (s6\<lparr>max_block := next_free\<rparr>, page)))))
      else
        bnd (get_next s3 page) (\<lambda>h. let cur = payload_for_hdr h in
        bnd (set_payload_size s3 cur (ucast ((scast size_left :: size_t) - of_nat HDR))) (\<lambda>s4.
        bnd (set_prevpayload_size s4 cur (ucast requestedsz)) (\<lambda>s5.
        bnd (myfree fuel s5 cur) (\<lambda>s6.
        Inr (s6\<lparr>max_block := cur\<rparr>, page)))))))))))"

text \<open>The three tails of \<open>mymalloc\<close> after a block was found: a remainder that can be
  freed, a garbage remainder, a perfect fit.\<close>

definition malloc_split :: "nat \<Rightarrow> heap \<Rightarrow> addr \<Rightarrow> size_t \<Rightarrow> u32 \<Rightarrow> stop + heap" where
  "malloc_split fuel s cur requestedsz remaining_size =
     bnd (get_next s cur) (\<lambda>h. let next_free = payload_for_hdr h in
     bnd (set_payload_size s next_free (ucast ((ucast remaining_size :: size_t) - of_nat HDR))) (\<lambda>s1.
     bnd (set_prevpayload_size s1 next_free (ucast requestedsz)) (\<lambda>s2.
     bnd (if next_free < max_block s2
          then bnd (get_next s2 next_free) (\<lambda>h2.
               bnd (get_size s2 next_free) (\<lambda>nsz.
               bnd (set_prevpayload_size s2 (payload_for_hdr h2) nsz) (\<lambda>s3.
               set_prevfree s3 next_free)))
          else Inr s2) (\<lambda>s4.
     myfree fuel (if next_free > max_block s4 then s4\<lparr>max_block := next_free\<rparr> else s4) next_free))))"

definition malloc_garbage :: "heap \<Rightarrow> addr \<Rightarrow> size_t \<Rightarrow> u32 \<Rightarrow> stop + heap" where
  "malloc_garbage s cur requestedsz remaining_size =
     bnd (get_next s cur) (\<lambda>h. let next_free = payload_for_hdr h in
     bnd (set_payload_size s next_free
            (ucast ((ucast remaining_size :: size_t) - of_nat HDR) OR FREE_MASK)) (\<lambda>s1.
     bnd (set_prevpayload_size s1 next_free (ucast requestedsz)) (\<lambda>s2.
     bnd (if next_free > max_block s2 then Inr (s2\<lparr>max_block := next_free\<rparr>)
          else if next_free < max_block s2 then
            bnd (get_next s2 next_free) (\<lambda>h2.
            bnd (get_size s2 next_free) (\<lambda>nsz.
            bnd (set_prevpayload_size s2 (payload_for_hdr h2) nsz) (\<lambda>s3.
            bnd (set_prevfree s3 next_free) (\<lambda>s4.
            bnd (get_next s4 next_free) (\<lambda>h3.
            bnd (is_free s4 (payload_for_hdr h3)) (\<lambda>f.
            if f then bnd (get_size s4 next_free) (\<lambda>nsz2.
                      set_payload_size s4 next_free (nsz2 OR NEXT_FREE))
            else Inr s4))))))
          else Inr s2) (\<lambda>s5.
     bnd (if next_free > min_block s5 then set_nextfree s5 next_free else Inr s5) (\<lambda>s6.
     bnd (coalesce s6 next_free) (\<lambda>(s7, r). Inr s7))))))"

definition malloc_perfect :: "heap \<Rightarrow> addr \<Rightarrow> stop + heap" where
  "malloc_perfect s cur =
     (if cur < max_block s
      then bnd (get_payloadsz s cur) (\<lambda>raw. let h = cur + unat raw in
           bnd (rd32 s h) (\<lambda>v. wr32 s h (v AND NOT PREV_FREE)))
      else Inr s)"

definition mymalloc :: "nat \<Rightarrow> heap \<Rightarrow> size_t \<Rightarrow> stop + (heap \<times> addr)" where
  "mymalloc fuel s requestedsz0 =
     (if requestedsz0 = 0 then Inr (s, 0)
      else
        let r = roundup requestedsz0 ALIGNMENT;
            requestedsz = (if r < 16 then 16 else r);
            bucket = cal_bucket (ucast requestedsz)
        in
        bnd (get_free_space fuel s bucket requestedsz) (\<lambda>(s1, cur).
        if cur = 0 then get_new_page fuel s1 requestedsz
        else
          bnd (get_size s1 cur) (\<lambda>tmp.
          bnd (set_payload_size s1 cur (ucast requestedsz)) (\<lambda>s2.
          let remaining_size = (ucast ((ucast tmp :: size_t) - requestedsz) :: u32) in
          bnd (if unat remaining_size \<ge> HDR + 2 * PTR
               then malloc_split fuel s2 cur requestedsz remaining_size
               else if requestedsz \<noteq> ucast tmp
               then malloc_garbage s2 cur requestedsz remaining_size
               else malloc_perfect s2 cur) (\<lambda>s3.
          bnd (if cur > min_block s3
               then bnd (get_prev s3 cur) (\<lambda>prev.
                    bnd (get_payloadsz s3 prev) (\<lambda>v.
                    bnd (set_payload_size s3 prev (v AND NOT NEXT_FREE)) (\<lambda>s4.
                    bnd (is_free s4 prev) (\<lambda>f.
                    if f then set_prevfree s4 prev else Inr s4))))
               else Inr s3) (\<lambda>s5.
          bnd (if cur < max_block s5
               then bnd (get_next s5 cur) (\<lambda>h. let next = payload_for_hdr h in
                    bnd (is_free s5 next) (\<lambda>f.
                    if f then set_nextfree s5 next else Inr s5))
               else Inr s5) (\<lambda>s6.
          Inr (s6, cur))))))))"

section \<open>realloc\<close>

text \<open>\<open>memmove\<close> of \<open>n\<close> bytes, on 4-byte cells: all source cells are read before any is
  written. The lengths the allocator passes are multiples of 4.\<close>

fun read_cells :: "heap \<Rightarrow> addr \<Rightarrow> nat \<Rightarrow> stop + u32 list" where
  "read_cells s a 0 = Inr []"
| "read_cells s a (Suc n) = bnd (rd32 s a) (\<lambda>v. bnd (read_cells s (a + 4) n) (\<lambda>vs. Inr (v # vs)))"

fun write_cells :: "heap \<Rightarrow> addr \<Rightarrow> u32 list \<Rightarrow> stop + heap" where
  "write_cells s a [] = Inr s"
| "write_cells s a (v # vs) = bnd (wr32 s a v) (\<lambda>s1. write_cells s1 (a + 4) vs)"

definition memmove :: "heap \<Rightarrow> addr \<Rightarrow> addr \<Rightarrow> nat \<Rightarrow> stop + heap" where
  "memmove s dst src n = bnd (read_cells s src (n div 4)) (\<lambda>vs. write_cells s dst vs)"

text \<open>The in-place growth of \<open>myrealloc\<close>, entered when \<open>leftover\<close> is at least 16.\<close>

definition realloc_grow :: "nat \<Rightarrow> heap \<Rightarrow> addr \<Rightarrow> u32 \<Rightarrow> u32 \<Rightarrow> u32 \<Rightarrow> addr \<Rightarrow> stop + (heap \<times> addr)" where
  "realloc_grow fuel s oldptr oldsz new_size nextsz next_block =
     bnd (remove_from_list s next_block (cal_bucket nextsz)) (\<lambda>s1.
     let remainder = payload_for_hdr (oldptr + unat new_size) in
     bnd (set_payload_size s1 remainder (oldsz + nextsz - new_size)) (\<lambda>s2.
     bnd (set_prevpayload_size s2 remainder new_size) (\<lambda>s3.
     bnd (get_payloadsz s3 remainder) (\<lambda>rv.
     bnd (get_payloadsz s3 next_block) (\<lambda>nv.
     bnd (set_payload_size s3 remainder (rv OR (nv AND NEXT_FREE))) (\<lambda>s4.
     bnd (get_payloadsz s4 oldptr) (\<lambda>ov.
     bnd (set_payload_size s4 oldptr ((new_size OR NEXT_FREE) OR (ov AND PREV_FREE))) (\<lambda>s5.
     bnd (if remainder < max_block s5
          then bnd (get_next s5 remainder) (\<lambda>h.
               bnd (get_size s5 remainder) (\<lambda>rsz.
               set_prevpayload_size s5 (payload_for_hdr h) rsz))
          else Inr s5) (\<lambda>s6.
     bnd (myfree fuel (if remainder > max_block s6 then s6\<lparr>max_block := remainder\<rparr> else s6)
            remainder) (\<lambda>s7.
     Inr (s7, oldptr)))))))))))"

definition realloc_move :: "nat \<Rightarrow> heap \<Rightarrow> addr \<Rightarrow> u32 \<Rightarrow> u32 \<Rightarrow> stop + (heap \<times> addr)" where
  "realloc_move fuel s oldptr oldsz new_size =
     bnd (mymalloc fuel s (ucast new_size)) (\<lambda>(s1, newptr).
     bnd (memmove s1 newptr oldptr (unat (if oldsz < new_size then oldsz else new_size))) (\<lambda>s2.
     bnd (myfree fuel s2 oldptr) (\<lambda>s3.
     Inr (s3, newptr))))"

definition myrealloc :: "nat \<Rightarrow> heap \<Rightarrow> addr \<Rightarrow> size_t \<Rightarrow> stop + (heap \<times> addr)" where
  "myrealloc fuel s oldptr newsz =
     bnd (get_size s oldptr) (\<lambda>oldsz.
     let new_size0 = (ucast (roundup (ucast (ucast newsz :: u32)) ALIGNMENT) :: u32) in
     if new_size0 = oldsz then Inr (s, oldptr)
     else
       let new_size = (if new_size0 < 16 then 16 else new_size0) in
       bnd (has_next_free s oldptr) (\<lambda>nf.
       if oldsz < new_size \<and> nf \<and> oldptr < max_block s then
         bnd (get_next s oldptr) (\<lambda>h. let next_block = payload_for_hdr h in
         bnd (get_size s next_block) (\<lambda>nextsz.
         let leftover = nextsz + oldsz - new_size in
         if sint leftover \<ge> int (2 * PTR)
         then realloc_grow fuel s oldptr oldsz new_size nextsz next_block
         else realloc_move fuel s oldptr oldsz new_size))
       else realloc_move fuel s oldptr oldsz new_size))"

section \<open>Notions for the statements\<close>

text \<open>Two heaps with the same segment and buckets whose cells agree on the size bits.\<close>

definition same_sizes :: "heap \<Rightarrow> heap \<Rightarrow> bool" where
  "same_sizes s s' \<longleftrightarrow>
     seg_base s' = seg_base s \<and> seg_pages s' = seg_pages s \<and> buckets s' = buckets s \<and>
     (\<forall>a. mem s' a AND SIZE_MASK = mem s a AND SIZE_MASK)"

text \<open>The pointer that \<open>rdptr\<close> reads at \<open>a\<close>, and the four cells that hold the two
  links of a free-list node \<open>m\<close>.\<close>

definition ptr_at :: "heap \<Rightarrow> addr \<Rightarrow> addr" where
  "ptr_at s a = unat (mem s a) + 2 ^ 32 * unat (mem s (a + 4))"

definition link_cells :: "addr \<Rightarrow> addr set" where
  "link_cells m = {m, m + 4, m + 8, m + 12}"

text \<open>The free lists of \<open>s\<close> stay inside a set \<open>ns\<close> of nodes: NULL is not in the segment,
  whose base is 8-aligned; every bucket is empty or headed by a node; every node is 8-aligned
  with its header and its links inside the segment, and its \<open>next\<close> and \<open>prev\<close> links are
  NULL or nodes; and the links of a node lie neither in the block of another node nor in the
  header that follows that block. Lists with a cycle are not excluded.\<close>

definition free_lists_ok :: "heap \<Rightarrow> addr set \<Rightarrow> bool" where
  "free_lists_ok s ns \<longleftrightarrow>
     0 < seg_base s \<and> 8 dvd seg_base s \<and>
     (\<forall>i. 0 \<le> i \<and> i < NUM_BUCKETS \<longrightarrow> buckets s (nat i) = 0 \<or> buckets s (nat i) \<in> ns) \<and>
     (\<forall>m \<in> ns. 8 dvd m \<and> seg_base s + 8 \<le> m \<and> m + 16 \<le> seg_base s + PAGE_SIZE * seg_pages s \<and>
        (ptr_at s m = 0 \<or> ptr_at s m \<in> ns) \<and>
        (ptr_at s (m + 8) = 0 \<or> ptr_at s (m + 8) \<in> ns) \<and>
        (\<forall>m' \<in> ns. m' \<noteq> m \<longrightarrow>
           m' + 16 \<le> m - 8 \<or> m + unat (mem s (m - 8) AND SIZE_MASK) + 8 \<le> m'))"

text \<open>What the insertion of \<open>myfree\<close> needs of the lists, and two ways to say that a call
  changes the store in some cells only: in the links of the nodes \<open>ms\<close>, or in the cells
  \<open>A\<close>.\<close>

definition closed :: "heap \<Rightarrow> addr set \<Rightarrow> bool" where
  "closed s ns \<longleftrightarrow>
     (\<forall>i. 0 \<le> i \<and> i < NUM_BUCKETS \<longrightarrow> buckets s (nat i) = 0 \<or> buckets s (nat i) \<in> ns) \<and>
     (\<forall>m \<in> ns. ptr_at s m = 0 \<or> ptr_at s m \<in> ns)"

definition only_links :: "addr set \<Rightarrow> heap \<Rightarrow> heap \<Rightarrow> bool" where
  "only_links ms s s' \<longleftrightarrow> seg_base s' = seg_base s \<and> seg_pages s' = seg_pages s \<and>
     max_block s' = max_block s \<and>
     (\<forall>x. mem s' x \<noteq> mem s x \<longrightarrow> (\<exists>m \<in> ms. x \<in> link_cells m))"

definition only_cells :: "addr set \<Rightarrow> heap \<Rightarrow> heap \<Rightarrow> bool" where
  "only_cells A s s' \<longleftrightarrow> seg_base s' = seg_base s \<and> seg_pages s' = seg_pages s \<and>
     buckets s' = buckets s \<and> (\<forall>a. mem s' a \<noteq> mem s a \<longrightarrow> a \<in> A)"

section \<open>Sequences of calls\<close>




section \<open>Concrete runs\<close>

text \<open>A segment at a page-aligned base that has not been initialised yet, on a provider
  that grants at most \<open>limit\<close> pages.\<close>

definition fresh :: "nat \<Rightarrow> heap" where
  "fresh limit = \<lparr>mem = (\<lambda>_. 0), buckets = (\<lambda>i. 0), max_block = 0, min_block = 0,
                  seg_base = 0x107000000, seg_pages = 0, seg_limit = limit\<rparr>"

text \<open>Four blocks of 16 bytes; the first and the third are freed. The run reports \<open>a\<close>,
  \<open>c\<close>, the head of bucket 2, and the \<open>next\<close> links of \<open>a\<close> and of \<open>c\<close>.\<close>

definition trace_cycle :: "stop + (addr \<times> addr \<times> addr \<times> addr \<times> addr)" where
  "trace_cycle =
     bnd (myinit (fresh 16)) (\<lambda>(s, ok).
     bnd (mymalloc 50 s 16) (\<lambda>(s, a).
     bnd (mymalloc 50 s 16) (\<lambda>(s, b).
     bnd (mymalloc 50 s 16) (\<lambda>(s, c).
     bnd (mymalloc 50 s 16) (\<lambda>(s, d).
     bnd (myfree 50 s a) (\<lambda>s.
     bnd (myfree 50 s c) (\<lambda>s.
     bnd (get_bucket s 2) (\<lambda>hd.
     bnd (get_next_in_list s a) (\<lambda>an.
     bnd (get_next_in_list s c) (\<lambda>cn.
     Inr (a, c, hd, an, cn)))))))))))"

text \<open>The same run, followed by a request of 24 bytes with \<open>fuel\<close> iterations per loop.\<close>

definition trace_hang :: "nat \<Rightarrow> stop + (heap \<times> addr)" where
  "trace_hang fuel =
     bnd (myinit (fresh 16)) (\<lambda>(s, ok).
     bnd (mymalloc 50 s 16) (\<lambda>(s, a).
     bnd (mymalloc 50 s 16) (\<lambda>(s, b).
     bnd (mymalloc 50 s 16) (\<lambda>(s, c).
     bnd (mymalloc 50 s 16) (\<lambda>(s, d).
     bnd (myfree 50 s a) (\<lambda>s.
     bnd (myfree 50 s c) (\<lambda>s.
     mymalloc fuel s 24)))))))"

text \<open>Six blocks of 16 bytes \<open>a\<close> to \<open>f\<close>; \<open>c\<close>, \<open>e\<close> and \<open>b\<close> are freed, 32 bytes are
  allocated (the merged \<open>b\<close>), and \<open>a\<close> is freed. The run reports the block \<open>b'\<close> of the
  32 bytes, its size, the payload of its successor in address order, \<open>max_block\<close>, and the
  successor's \<open>prev_payload_size\<close> (masked).\<close>

definition trace_clobber :: "stop + (addr \<times> u32 \<times> addr \<times> addr \<times> u32)" where
  "trace_clobber =
     bnd (myinit (fresh 16)) (\<lambda>(s, ok).
     bnd (mymalloc 50 s 16) (\<lambda>(s, a).
     bnd (mymalloc 50 s 16) (\<lambda>(s, b).
     bnd (mymalloc 50 s 16) (\<lambda>(s, c).
     bnd (mymalloc 50 s 16) (\<lambda>(s, d).
     bnd (mymalloc 50 s 16) (\<lambda>(s, e).
     bnd (mymalloc 50 s 16) (\<lambda>(s, f).
     bnd (myfree 50 s c) (\<lambda>s.
     bnd (myfree 50 s e) (\<lambda>s.
     bnd (myfree 50 s b) (\<lambda>s.
     bnd (mymalloc 50 s 32) (\<lambda>(s, b').
     bnd (myfree 50 s a) (\<lambda>s.
     bnd (get_size s b') (\<lambda>bsz.
     bnd (get_next s b') (\<lambda>h.
     bnd (get_prev_size s (payload_for_hdr h)) (\<lambda>psz.
     Inr (b', bsz, payload_for_hdr h, max_block s, psz))))))))))))))))"

text \<open>A provider that grants one page only, and a request that needs a second one.\<close>

definition trace_refuse :: "stop + (heap \<times> addr)" where
  "trace_refuse = bnd (myinit (fresh 1)) (\<lambda>(s, ok). mymalloc 50 s 5000)"


text \<open>On a fresh heap, \<open>myrealloc\<close> of NULL to 16 bytes, and \<open>mymalloc\<close> of 16 bytes.\<close>

definition trace_realloc_null :: "stop + (heap \<times> addr)" where
  "trace_realloc_null = bnd (myinit (fresh 16)) (\<lambda>(s, ok). myrealloc 50 s 0 16)"

definition trace_malloc_first :: "stop + addr" where
  "trace_malloc_first =
     bnd (myinit (fresh 16)) (\<lambda>(s, ok). bnd (mymalloc 50 s 16) (\<lambda>(s', p). Inr p))"

text \<open>The heap after \<open>myinit\<close>, after one more \<open>alloc(16)\<close>, and after an \<open>alloc(5000)\<close>
  that makes the segment grow.\<close>

definition heap_init :: heap where
  "heap_init = fst (projr (myinit (fresh 16)))"



text \<open>Two blocks of about 1 GiB each, in pages of their own; the second is freed and the
  first reallocated to 2 GiB. The run reports the first block, its header and the size of
  the second before the call, \<open>max_block\<close>, what \<open>myrealloc\<close> returns, and the header and
  the size of the first block after the call.\<close>

definition trace_realloc_huge :: "stop + (addr \<times> u32 \<times> u32 \<times> addr \<times> addr \<times> u32 \<times> u32)" where
  "trace_realloc_huge =
     bnd (myinit (fresh 1000000)) (\<lambda>(s, ok).
     bnd (mymalloc 50 s 0x3ffffff8) (\<lambda>(s, a).
     bnd (mymalloc 50 s 0x40000ff8) (\<lambda>(s, b).
     bnd (myfree 50 s b) (\<lambda>s.
     bnd (get_payloadsz s a) (\<lambda>v.
     bnd (get_size s b) (\<lambda>nsz.
     bnd (myrealloc 50 s a 0x80000000) (\<lambda>(s', q).
     bnd (get_payloadsz s' a) (\<lambda>v'.
     bnd (get_size s' a) (\<lambda>sz'.
     Inr (a, v, nsz, max_block s, q, v', sz'))))))))))"

text \<open>After \<open>myinit\<close>, a request of 2 GiB. The run reports the pointer, its header, its
  masked size, and the head of bucket 9.\<close>

definition trace_alloc_huge :: "stop + (addr \<times> u32 \<times> u32 \<times> addr)" where
  "trace_alloc_huge =
     bnd (myinit (fresh 1000000)) (\<lambda>(s, ok).
     bnd (mymalloc 50 s 0x80000000) (\<lambda>(s', p).
     bnd (get_payloadsz s' p) (\<lambda>v.
     bnd (get_size s' p) (\<lambda>sz.
     bnd (get_bucket s' 9) (\<lambda>hd.
     Inr (p, v, sz, hd))))))"

text \<open>The heap after \<open>alloc(5)\<close> on the initial heap.\<close>

definition heap_five :: heap where
  "heap_five = fst (projr (mymalloc 50 heap_init 5))"

text \<open>Blocks \<open>p\<close>, \<open>x\<close>, \<open>q\<close>, \<open>z\<close>, \<open>r\<close> of 16, 64, 16, 64, 16 bytes; \<open>x\<close>, then \<open>z\<close> are
  freed and \<open>p\<close> is reallocated to 24 bytes. The run reports \<open>p\<close> and its header, \<open>x\<close>
  and its size, \<open>max_block\<close> and the head of bucket 4 before the call, what \<open>myrealloc\<close>
  returns, and the header of \<open>p\<close> and the heads of bucket 4 and bucket 3 after it.\<close>

definition trace_grow_stale ::
  "stop + (addr \<times> u32 \<times> addr \<times> u32 \<times> addr \<times> addr \<times> addr \<times> u32 \<times> addr \<times> addr)" where
  "trace_grow_stale =
     bnd (myinit (fresh 16)) (\<lambda>(s, ok).
     bnd (mymalloc 50 s 16) (\<lambda>(s, p).
     bnd (mymalloc 50 s 64) (\<lambda>(s, x).
     bnd (mymalloc 50 s 16) (\<lambda>(s, q).
     bnd (mymalloc 50 s 64) (\<lambda>(s, z).
     bnd (mymalloc 50 s 16) (\<lambda>(s, r).
     bnd (myfree 50 s x) (\<lambda>s.
     bnd (myfree 50 s z) (\<lambda>s.
     bnd (get_payloadsz s p) (\<lambda>v.
     bnd (get_size s x) (\<lambda>nsz.
     bnd (get_bucket s 4) (\<lambda>hd.
     bnd (myrealloc 50 s p 24) (\<lambda>(s', res).
     bnd (get_payloadsz s' p) (\<lambda>v'.
     bnd (get_bucket s' 4) (\<lambda>hd'.
     bnd (get_bucket s' 3) (\<lambda>hd3.
     Inr (p, v, x, nsz, max_block s, hd, res, v', hd', hd3))))))))))))))))"

text \<open>Four blocks of 16 bytes; \<open>a\<close>, then \<open>c\<close> are freed, and then \<open>b\<close> between them. The
  run reports \<open>a\<close>, \<open>b\<close>, \<open>c\<close>, the header of \<open>b\<close> and the sizes of \<open>a\<close> and \<open>c\<close> before
  \<open>b\<close> is freed; what \<open>coalesce b\<close> returns, the size of that block and the head of bucket 2
  after \<open>coalesce\<close>; and the heads of bucket 2 and bucket 4 after \<open>myfree b\<close>.\<close>

definition trace_merge_stale ::
  "stop + (addr \<times> addr \<times> addr \<times> u32 \<times> u32 \<times> u32 \<times> addr \<times> u32 \<times> addr \<times> addr \<times> addr)" where
  "trace_merge_stale =
     bnd (myinit (fresh 16)) (\<lambda>(s, ok).
     bnd (mymalloc 50 s 16) (\<lambda>(s, a).
     bnd (mymalloc 50 s 16) (\<lambda>(s, b).
     bnd (mymalloc 50 s 16) (\<lambda>(s, c).
     bnd (mymalloc 50 s 16) (\<lambda>(s, d).
     bnd (myfree 50 s a) (\<lambda>s.
     bnd (myfree 50 s c) (\<lambda>s.
     bnd (get_payloadsz s b) (\<lambda>v.
     bnd (get_size s a) (\<lambda>asz.
     bnd (get_size s c) (\<lambda>csz.
     bnd (coalesce s b) (\<lambda>(s1, m).
     bnd (get_size s1 m) (\<lambda>msz.
     bnd (get_bucket s1 2) (\<lambda>hd1.
     bnd (myfree 50 s b) (\<lambda>s2.
     bnd (get_bucket s2 2) (\<lambda>hd2.
     bnd (get_bucket s2 4) (\<lambda>hd4.
     Inr (a, b, c, v, asz, csz, m, msz, hd1, hd2, hd4)))))))))))))))))"

text \<open>Four blocks of 16 bytes; \<open>a\<close>, then \<open>c\<close> are freed, 16 bytes are allocated again and the
  block \<open>p\<close> that \<open>mymalloc\<close> gave is reallocated to 1 byte. The run reports \<open>p\<close>, what
  \<open>myrealloc\<close> returns, the header of \<open>p\<close> and the head of bucket 2 after the call, and
  what the next \<open>mymalloc\<close> of 16 bytes returns.\<close>

definition trace_realloc_stale :: "stop + (addr \<times> addr \<times> u32 \<times> addr \<times> addr)" where
  "trace_realloc_stale =
     bnd (myinit (fresh 16)) (\<lambda>(s, ok).
     bnd (mymalloc 50 s 16) (\<lambda>(s, a).
     bnd (mymalloc 50 s 16) (\<lambda>(s, b).
     bnd (mymalloc 50 s 16) (\<lambda>(s, c).
     bnd (mymalloc 50 s 16) (\<lambda>(s, d).
     bnd (myfree 50 s a) (\<lambda>s.
     bnd (myfree 50 s c) (\<lambda>s.
     bnd (mymalloc 50 s 16) (\<lambda>(s, p).
     bnd (myrealloc 50 s p 1) (\<lambda>(s, q).
     bnd (get_payloadsz s p) (\<lambda>v.
     bnd (get_bucket s 2) (\<lambda>hd.
     bnd (mymalloc 50 s 16) (\<lambda>(s, y).
     Inr (p, q, v, hd, y)))))))))))))"

text \<open>Blocks \<open>f\<close>, \<open>e\<close>, \<open>g\<close>, \<open>b\<close>, \<open>c\<close>, \<open>d\<close> of 3952, 24, 16, 16, 24, 16 bytes fill the
  first page, and \<open>x\<close> of \<open>0x78fffff8\<close> bytes fills new pages behind them. \<open>c\<close>, \<open>e\<close> and
  \<open>b\<close> are freed, 32 bytes are allocated, \<open>x\<close> and \<open>d\<close> are freed, and \<open>0x79000008\<close> bytes
  are requested. The run reports \<open>c\<close>, the heads of bucket 2 and bucket 14 and the size of
  the latter before the last call, and the pointer that the last call returns, its header
  and its masked size.\<close>

definition trace_alloc_clobbered ::
  "stop + (addr \<times> addr \<times> addr \<times> u32 \<times> addr \<times> u32 \<times> u32)" where
  "trace_alloc_clobbered =
     bnd (myinit (fresh 1000000)) (\<lambda>(s, ok).
     bnd (mymalloc 50 s 3952) (\<lambda>(s, f).
     bnd (mymalloc 50 s 24) (\<lambda>(s, e).
     bnd (mymalloc 50 s 16) (\<lambda>(s, g).
     bnd (mymalloc 50 s 16) (\<lambda>(s, b).
     bnd (mymalloc 50 s 24) (\<lambda>(s, c).
     bnd (mymalloc 50 s 16) (\<lambda>(s, d).
     bnd (mymalloc 50 s 0x78fffff8) (\<lambda>(s, x).
     bnd (myfree 50 s c) (\<lambda>s.
     bnd (myfree 50 s e) (\<lambda>s.
     bnd (myfree 50 s b) (\<lambda>s.
     bnd (mymalloc 50 s 32) (\<lambda>(s, y).
     bnd (myfree 50 s x) (\<lambda>s.
     bnd (myfree 50 s d) (\<lambda>s.
     bnd (get_bucket s 2) (\<lambda>hd2.
     bnd (get_bucket s 14) (\<lambda>hd14.
     bnd (get_size s hd14) (\<lambda>gsz.
     bnd (mymalloc 50 s 0x79000008) (\<lambda>(s', p).
     bnd (get_payloadsz s' p) (\<lambda>v.
     bnd (get_size s' p) (\<lambda>sz.
     Inr (c, hd2, hd14, gsz, p, v, sz)))))))))))))))))))))"

section \<open>Facts about the constants\<close>

lemmas alloc_consts =
  ALIGNMENT_def SIZE_MASK_def FREE_MASK_def PREV_FREE_def NEXT_FREE_def INIT_MASK_def
  NUM_BUCKETS_def INT_BITS_def INIT_PAGES_def HDR_def PTR_def PAGE_SIZE_def

section \<open>Running the model\<close>

lemma bnd_Inr [simp]: "bnd (Inr v) f = f v"
  by (simp add: bnd_def)

lemma bnd_Inl [simp]: "bnd (Inl e) f = Inl e"
  by (simp add: bnd_def)

text \<open>With this rule for congruence the simplifier runs a call before it looks at what
  follows it.\<close>

lemma bnd_cong_weak: "m = m' \<Longrightarrow> bnd m f = bnd m' f"
  by simp

text \<open>A call that is known to return, named by what it returns.\<close>

lemma projr_eval: "\<not> isl m \<Longrightarrow> m = Inr (projr m)"
  by (cases m) simp_all

lemma bnd_prod_Inr:
  "bnd m (\<lambda>(s, q). Inr q) = Inr y \<Longrightarrow> m = Inr (fst (projr m), y)"
  by (cases m) auto

lemma scan_bucket_numeral:
  "scan_bucket (numeral k) s i cur requestedsz =
     (if cur = 0 then Inr None
      else bnd (get_size s cur) (\<lambda>sz.
        if ucast sz \<ge> requestedsz
        then bnd (remove_from_list s cur i) (\<lambda>s1. Inr (Some (s1, cur)))
        else bnd (get_next_in_list s cur) (\<lambda>nxt.
               scan_bucket (pred_numeral k) s i nxt requestedsz)))"
  by (simp add: numeral_eq_Suc)

lemma free_walk_numeral:
  "free_walk (numeral k) s ptr prev cur =
     (if cur = 0 then Inr (prev, cur)
      else bnd (get_size s cur) (\<lambda>cs. bnd (get_size s ptr) (\<lambda>ps.
        if cs \<ge> ps then Inr (prev, cur)
        else bnd (get_next_in_list s cur) (\<lambda>nxt. free_walk (pred_numeral k) s ptr cur nxt))))"
  by (simp add: numeral_eq_Suc)

lemma clz_from_numeral:
  "clz_from (numeral k) w =
     (if bit w (pred_numeral k) then 0 else Suc (clz_from (pred_numeral k) w))"
  by (simp add: numeral_eq_Suc)

lemma read_cells_numeral:
  "read_cells s a (numeral k) =
     bnd (rd32 s a) (\<lambda>v. bnd (read_cells s (a + 4) (pred_numeral k)) (\<lambda>vs. Inr (v # vs)))"
  by (simp add: numeral_eq_Suc)

lemmas model_defs =
  mapped_def rd32_def wr32_def rdptr_def wrptr_def get_bucket_def set_bucket_def
  init_heap_segment_def extend_heap_segment_def roundup_def hdr_for_payload_def payload_for_hdr_def
  set_payload_size_def set_prevpayload_size_def get_size_def get_payloadsz_def get_prev_size_def
  set_next_in_list_def set_prev_in_list_def get_next_in_list_def get_prev_in_list_def
  get_next_def get_prev_def set_prevfree_def set_nextfree_def set_free_def is_free_def
  has_next_free_def has_prev_free_def clear_buckets_def remove_from_list_def get_free_space_def
  coalesce_up_def coalesce_down_def coalesce_both_def coalesce_def head_insert_def free_insert_def
  myfree_def myinit_def get_new_page_def malloc_split_def malloc_garbage_def malloc_perfect_def
  mymalloc_def memmove_def realloc_grow_def realloc_move_def myrealloc_def

lemmas eval_simps =
  model_defs alloc_consts scan_bucket_numeral free_walk_numeral read_cells_numeral
  Let_def upto_rec_numeral clz_from_numeral cal_bucket_def builtin_clz_def fresh_def

section \<open>The bucket index\<close>

lemma bit_unat_u32: "k < 32 \<Longrightarrow> bit (w :: u32) k \<longleftrightarrow> odd (unat w div 2 ^ k)"
proof -
  assume k: "k < 32"
  have "bit (unat w) k \<longleftrightarrow> bit w k" using k by (simp add: bit_unsigned_iff)
  then show ?thesis by (simp add: bit_iff_odd)
qed

lemma bit_top:
  fixes w :: u32
  assumes "k < 32" "2 ^ k \<le> unat w" "unat w < 2 ^ Suc k"
  shows "bit w k"
proof -
  have "unat w div 2 ^ k = 1"
    using assms(2,3) by (intro div_nat_eqI) simp_all
  then show ?thesis using assms(1) by (simp add: bit_unat_u32)
qed

lemma bit_above:
  fixes w :: u32
  assumes "unat w < 2 ^ Suc k" "k < j" "j < 32"
  shows "\<not> bit w j"
proof -
  have "(2::nat) ^ Suc k \<le> 2 ^ j" using assms(2) by (intro power_increasing) simp_all
  then have "unat w div 2 ^ j = 0" using assms(1) by simp
  then show ?thesis using assms(3) by (simp add: bit_unat_u32)
qed

lemma clz_from_top:
  "k < n \<Longrightarrow> bit w k \<Longrightarrow> (\<forall>j. k < j \<and> j < n \<longrightarrow> \<not> bit w j) \<Longrightarrow> clz_from n w = n - 1 - k"
proof (induction n)
  case 0
  then show ?case by simp
next
  case (Suc m)
  show ?case
  proof (cases "k = m")
    case True
    with Suc.prems show ?thesis by simp
  next
    case False
    with Suc.prems have km: "k < m" by simp
    from Suc.prems km have nb: "\<not> bit w m" by simp
    from Suc.prems have "\<forall>j. k < j \<and> j < m \<longrightarrow> \<not> bit w j" by simp
    with Suc.IH km Suc.prems have "clz_from m w = m - 1 - k" by simp
    with nb km show ?thesis by simp
  qed
qed

lemma builtin_clz_interval:
  fixes w :: u32
  assumes "k < 32" "2 ^ k \<le> unat w" "unat w < 2 ^ Suc k"
  shows "builtin_clz w = 31 - k"
proof -
  have top: "bit w k" using assms by (rule bit_top)
  have above: "\<forall>j. k < j \<and> j < 32 \<longrightarrow> \<not> bit w j"
    using bit_above [OF assms(3)] by blast
  have "clz_from 32 w = 32 - 1 - k"
    using assms(1) top above by (rule clz_from_top)
  then show ?thesis by (simp add: builtin_clz_def)
qed

lemma builtin_clz_0: "builtin_clz 0 = 32"
  by code_simp

text \<open>Every nonzero word lies in exactly one binary interval.\<close>

lemma u32_interval:
  fixes w :: u32
  assumes "w \<noteq> 0"
  obtains k where "k < 32" "2 ^ k \<le> unat w" "unat w < 2 ^ Suc k"
proof -
  have pos: "0 < unat w" using assms by (simp add: unat_gt_0)
  define k where "k = (LEAST k. unat w < 2 ^ Suc k)"
  have ex: "unat w < 2 ^ Suc 31" using unsigned_less[of w] by simp
  have lt: "unat w < 2 ^ Suc k" unfolding k_def using ex by (rule LeastI)
  have k31: "k \<le> 31" unfolding k_def using ex by (rule Least_le)
  have ge: "2 ^ k \<le> unat w"
  proof (cases k)
    case 0
    then show ?thesis using pos by simp
  next
    case (Suc j)
    have "\<not> unat w < 2 ^ Suc j"
      using not_less_Least[of j "\<lambda>k. unat w < 2 ^ Suc k"] Suc by (simp add: k_def)
    then show ?thesis using Suc by simp
  qed
  show ?thesis using that[of k] k31 lt ge by simp
qed

lemma builtin_clz_bounds:
  fixes w :: u32
  assumes "w \<noteq> 0"
  shows "builtin_clz w < 32 \<and> 2 ^ (31 - builtin_clz w) \<le> unat w \<and> unat w < 2 ^ (32 - builtin_clz w)"
proof -
  obtain k where k: "k < 32" "2 ^ k \<le> unat w" "unat w < 2 ^ Suc k"
    using assms by (rule u32_interval)
  have c: "builtin_clz w = 31 - k" using k by (rule builtin_clz_interval)
  have "32 - (31 - k) = Suc k" using k(1) by simp
  then show ?thesis using k c by simp
qed

lemma cal_bucket_ge_2_16:
  fixes w :: u32
  assumes "2 ^ 16 \<le> w"
  shows "cal_bucket w = 14"
proof -
  have "w \<noteq> 0" using assms by auto
  then have b: "unat w < 2 ^ (32 - builtin_clz w)" "builtin_clz w < 32"
    using builtin_clz_bounds by auto
  have "(2::nat) ^ 16 \<le> unat w" using assms by (simp add: word_le_nat_alt)
  then have lt: "(2::nat) ^ 16 < 2 ^ (32 - builtin_clz w)" using b(1) by simp
  have "16 < 32 - builtin_clz w" by (rule power_less_imp_less_exp [OF _ lt]) simp
  then show ?thesis by (simp add: cal_bucket_def INT_BITS_def NUM_BUCKETS_def Let_def)
qed

text \<open>
  C3 (as amended). For every 32-bit size \<open>s\<close> the bucket index is
  \<open>min (31 - clz s - 2) 14\<close>, where \<open>clz\<close> counts the leading zeros (so that a nonzero
  \<open>s\<close> lies between \<open>2 ^ (31 - clz s)\<close> and \<open>2 ^ (32 - clz s)\<close>). Size 16 maps to bucket
  2 and size 32 to bucket 3, not to 1 and 2; every size from \<open>2 ^ 16\<close> on maps to bucket 14.
\<close>

theorem cal_bucket_formula:
  "cal_bucket s = min (31 - int (builtin_clz s) - 2) 14 \<and>
   cal_bucket 16 = 2 \<and> cal_bucket 32 = 3 \<and>
   (2 ^ 16 \<le> s \<longrightarrow> cal_bucket s = 14) \<and>
   (s \<noteq> 0 \<longrightarrow> 2 ^ (31 - builtin_clz s) \<le> unat s \<and> unat s < 2 ^ (32 - builtin_clz s))"
proof -
  have f: "cal_bucket s = min (31 - int (builtin_clz s) - 2) 14"
    by (simp add: cal_bucket_def INT_BITS_def NUM_BUCKETS_def Let_def min_def)
  have e16: "cal_bucket 16 = 2" by code_simp
  have e32: "cal_bucket 32 = 3" by code_simp
  show ?thesis using f e16 e32 cal_bucket_ge_2_16 builtin_clz_bounds by blast
qed

theorem cal_bucket_formula_witness:
  "(2 ^ 16 \<le> (70000 :: u32)) \<and> (70000 :: u32) \<noteq> 0 \<and> cal_bucket 70000 = 14 \<and>
   cal_bucket 70000 = min (31 - int (builtin_clz 70000) - 2) 14 \<and>
   2 ^ (31 - builtin_clz 70000) \<le> unat (70000 :: u32)"
  using cal_bucket_formula [of 70000] by simp

text \<open>C3 as stated fails at its own examples: 16 is not in bucket 1, nor 32 in bucket 2.\<close>

theorem cal_bucket_16_is_not_1: "cal_bucket 16 \<noteq> 1 \<and> cal_bucket 32 \<noteq> 2"
proof -
  have "cal_bucket 16 = 2" by code_simp
  moreover have "cal_bucket 32 = 3" by code_simp
  ultimately show ?thesis by simp
qed

section \<open>Reading and writing the store\<close>

subsection \<open>What the primitives do\<close>

lemma mapped_upd [simp]:
  "mapped (s\<lparr>mem := m\<rparr>) a = mapped s a"
  "mapped (s\<lparr>buckets := b\<rparr>) a = mapped s a"
  "mapped (s\<lparr>max_block := x\<rparr>) a = mapped s a"
  by (simp_all add: mapped_def)

lemma rd32_Inr: "rd32 s a = Inr v \<longleftrightarrow> mapped s a \<and> v = mem s a"
  by (auto simp: rd32_def)

lemma wr32_Inr: "wr32 s a v = Inr s' \<longleftrightarrow> mapped s a \<and> s' = s\<lparr>mem := (mem s)(a := v)\<rparr>"
  by (auto simp: wr32_def)

lemma get_size_Inr:
  "get_size s p = Inr v \<longleftrightarrow> mapped s (p - 8) \<and> v = mem s (p - 8) AND SIZE_MASK"
  by (auto simp: get_size_def hdr_for_payload_def HDR_def rd32_def)

lemma get_payloadsz_Inr:
  "get_payloadsz s p = Inr v \<longleftrightarrow> mapped s (p - 8) \<and> v = mem s (p - 8)"
  by (auto simp: get_payloadsz_def hdr_for_payload_def HDR_def rd32_def)

lemma get_prev_size_Inr:
  "get_prev_size s p = Inr v \<longleftrightarrow> mapped s (p - 8 + 4) \<and> v = mem s (p - 8 + 4) AND SIZE_MASK"
  by (auto simp: get_prev_size_def hdr_for_payload_def HDR_def rd32_def)

lemma set_payload_size_Inr:
  "set_payload_size s p v = Inr s' \<longleftrightarrow>
     mapped s (p - 8) \<and> s' = s\<lparr>mem := (mem s)(p - 8 := v)\<rparr>"
  by (auto simp: set_payload_size_def hdr_for_payload_def HDR_def wr32_def)

lemma set_prevpayload_size_Inr:
  "set_prevpayload_size s p v = Inr s' \<longleftrightarrow>
     mapped s (p - 8 + 4) \<and> s' = s\<lparr>mem := (mem s)(p - 8 + 4 := v)\<rparr>"
  by (auto simp: set_prevpayload_size_def hdr_for_payload_def HDR_def wr32_def)

lemma get_next_Inr:
  "get_next s p = Inr h \<longleftrightarrow> mapped s (p - 8) \<and> h = p + unat (mem s (p - 8) AND SIZE_MASK)"
  by (auto simp: get_next_def get_size_def hdr_for_payload_def HDR_def rd32_def)

lemma get_prev_Inr:
  "get_prev s p = Inr q \<longleftrightarrow>
     mapped s (p - 8 + 4) \<and> q = p - 8 - unat (mem s (p - 8 + 4) AND SIZE_MASK)"
  by (auto simp: get_prev_def get_prev_size_def hdr_for_payload_def HDR_def rd32_def)

subsection \<open>Masks\<close>

lemma mask_flags [simp]:
  "(v AND SIZE_MASK) AND PREV_FREE = 0"
  "(v AND SIZE_MASK) AND NEXT_FREE = 0"
  "(v AND SIZE_MASK) AND FREE_MASK = 0"
  by (simp_all add: SIZE_MASK_def PREV_FREE_def NEXT_FREE_def FREE_MASK_def and.assoc)

lemma mask_or [simp]:
  "(v OR PREV_FREE) AND SIZE_MASK = v AND SIZE_MASK"
  "(v OR NEXT_FREE) AND SIZE_MASK = v AND SIZE_MASK"
  "(v OR FREE_MASK) AND SIZE_MASK = v AND SIZE_MASK"
  by (simp_all add: SIZE_MASK_def PREV_FREE_def NEXT_FREE_def FREE_MASK_def bit.conj_disj_distrib2)

lemma mask_idem [simp]: "(v AND SIZE_MASK) AND SIZE_MASK = v AND SIZE_MASK"
  by (simp add: and.assoc)

lemma flag_reads:
  "has_prev_free s p = Inr f \<longleftrightarrow> mapped s (p - 8) \<and> f = (mem s (p - 8) AND PREV_FREE \<noteq> 0)"
  "has_next_free s p = Inr f \<longleftrightarrow> mapped s (p - 8) \<and> f = (mem s (p - 8) AND NEXT_FREE \<noteq> 0)"
  "is_free s p = Inr f \<longleftrightarrow> mapped s (p - 8) \<and> \<not> f"
  by (auto simp: has_prev_free_def has_next_free_def is_free_def get_payloadsz_def get_size_def
      hdr_for_payload_def HDR_def rd32_def)

section \<open>Words\<close>

lemma and_not_mask_push: "(x :: 'a::len word) AND NOT (mask n) = push_bit n (drop_bit n x)"
  by (rule bit_eqI) (auto simp: bit_simps)

lemma unat_and_minus8: "unat ((x :: size_t) AND - 8) = unat x div 8 * 8"
proof -
  have m: "(- 8 :: size_t) = NOT (mask 3)" using minus_exp_eq_not_mask [of 3, where 'a = size_t] by simp
  have "unat (push_bit 3 (drop_bit 3 x)) = take_bit 64 (push_bit 3 (drop_bit 3 (unat x)))"
    by (simp add: unsigned_push_bit_eq unat_drop_bit_eq)
  also have "push_bit 3 (drop_bit 3 (unat x)) = unat x div 8 * 8"
    by (simp add: push_bit_eq_mult drop_bit_eq_div)
  also have "take_bit 64 (unat x div 8 * 8) = unat x div 8 * 8"
  proof -
    have "unat x div 8 * 8 \<le> unat x" by simp
    also have "unat x < 2 ^ 64" using unsigned_less [of x] by simp
    finally show ?thesis by (simp add: take_bit_nat_eq_self)
  qed
  finally show ?thesis unfolding m and_not_mask_push .
qed

lemma roundup8_unat:
  assumes "unat n + 7 < 2 ^ 64"
  shows "unat (roundup n ALIGNMENT) = (unat n + 7) div 8 * 8"
proof -
  have "unat (n + 7) = unat n + 7" using assms by (simp add: unat_add_lem [THEN iffD1])
  then show ?thesis by (simp add: roundup_def ALIGNMENT_def unat_and_minus8 add.commute)
qed

lemma and_exp_cases: "(v :: 'a::len word) AND 2 ^ n \<noteq> 0 \<Longrightarrow> v AND 2 ^ n = 2 ^ n"
proof -
  assume "v AND 2 ^ n \<noteq> 0"
  then obtain i where "bit (v AND 2 ^ n) i"
    by (auto simp: bit_eq_iff [where 'a = "'a word"])
  then have "bit v n" "n < LENGTH('a)"
    by (auto simp: bit_simps)
  then show ?thesis
    by (intro bit_eqI) (auto simp: bit_simps)
qed

lemma nf_bit: "(v :: u32) AND NEXT_FREE \<noteq> 0 \<Longrightarrow> v AND NEXT_FREE = NEXT_FREE"
  using and_exp_cases [of v 1] by (simp add: NEXT_FREE_def)

lemma flags_kept:
  assumes "(v :: u32) AND NEXT_FREE \<noteq> 0" "v AND FREE_MASK = 0"
  shows "(n OR NEXT_FREE) OR (v AND PREV_FREE) = n OR (v AND (FREE_MASK OR NEXT_FREE OR PREV_FREE))"
  using nf_bit [OF assms(1)] assms(2)
  by (simp add: bit.conj_disj_distrib or.assoc)

lemma size_le: "unat (v AND SIZE_MASK) \<le> 0x7ffffffc"
proof -
  have "v AND SIZE_MASK \<le> SIZE_MASK" by (rule word_and_le1)
  then show ?thesis by (simp add: word_le_nat_alt SIZE_MASK_def)
qed

lemma unat_and3: "unat ((w :: u32) AND 3) = unat w mod 4"
proof -
  have "(3 :: u32) = mask 2" by (simp add: mask_eq_exp_minus_1)
  then have "w AND 3 = take_bit 2 w" by (simp add: take_bit_eq_mask)
  then show ?thesis by (simp add: unsigned_take_bit_eq take_bit_eq_mod unat_mod)
qed

lemma size_dvd4: "4 dvd unat (v AND SIZE_MASK)"
proof -
  have "(v AND SIZE_MASK) AND 3 = 0" by (simp add: SIZE_MASK_def and.assoc)
  then have "unat (v AND SIZE_MASK) mod 4 = 0" using unat_and3 [of "v AND SIZE_MASK"] by simp
  then show ?thesis by (simp add: dvd_eq_mod_eq_0)
qed

lemma masked_id:
  assumes "4 dvd unat (w :: u32)" "unat w < 2 ^ 31"
  shows "w AND SIZE_MASK = w"
proof (rule bit_eqI)
  fix i
  assume "possible_bit TYPE(u32) i"
  then have i: "i < 32" by (simp add: possible_bit_word)
  have m: "bit SIZE_MASK i \<longleftrightarrow> 2 \<le> i \<and> i < 31"
  proof -
    have eq: "SIZE_MASK = mask 31 AND NOT (mask 2)" by (simp add: SIZE_MASK_def mask_eq_exp_minus_1)
    show ?thesis unfolding eq using i by (auto simp: bit_simps)
  qed
  have b0: "\<not> bit w 0" using assms(1) by (auto simp: bit_unat_u32)
  have b1: "\<not> bit w 1"
  proof -
    from assms(1) obtain k where "unat w = 4 * k" by (auto simp: dvd_def)
    then have "unat w div 2 = 2 * k" by simp
    then show ?thesis by (simp add: bit_unat_u32)
  qed
  have b31: "\<not> bit w 31" using assms(2) by (simp add: bit_unat_u32)
  have "bit w i \<Longrightarrow> 2 \<le> i \<and> i < 31"
  proof -
    assume bw: "bit w i"
    have "i \<noteq> 0" using bw b0 by (cases "i = 0") simp_all
    moreover have "i \<noteq> 1" using bw b1 by (cases "i = 1") simp_all
    moreover have "i \<noteq> 31" using bw b31 by (cases "i = 31") simp_all
    ultimately show ?thesis using i by auto
  qed
  then show "bit (w AND SIZE_MASK) i \<longleftrightarrow> bit w i"
    using m by (auto simp: bit_and_iff)
qed

lemma sint_small: "unat (x :: u32) < 2 ^ 31 \<Longrightarrow> sint x = int (unat x)"
proof -
  assume a: "unat x < 2 ^ 31"
  have "sint x = signed_take_bit 31 (uint x)" by (simp add: sint_uint)
  also have "\<dots> = uint x"
  proof (rule signed_take_bit_int_eq_self)
    show "- (2 ^ 31) \<le> uint x" by (rule order_trans [of _ 0]) simp_all
    have "int (unat x) < int (2 ^ 31)" using a by (simp only: of_nat_less_iff)
    then show "uint x < 2 ^ 31" by simp
  qed
  finally show ?thesis by simp
qed

lemma unat_ucast_down: "unat (n :: size_t) < 2 ^ 32 \<Longrightarrow> unat (ucast n :: u32) = unat n"
  by (simp add: unsigned_ucast_eq take_bit_nat_eq_self)

lemma unat_ucast_up: "unat (ucast (x :: u32) :: size_t) = unat x"
proof -
  have "unat x < 2 ^ 32" using unsigned_less [of x] by simp
  also have "(2 :: nat) ^ 32 < 2 ^ 64" by simp
  finally have "unat x < 2 ^ 64" .
  then show ?thesis by (simp add: unsigned_ucast_eq take_bit_nat_eq_self)
qed

lemma ucast_down_up: "unat (n :: size_t) < 2 ^ 32 \<Longrightarrow> (ucast (ucast n :: u32) :: size_t) = n"
  by (simp add: word_unat_eq_iff unat_ucast_up unat_ucast_down)

section \<open>The lowest block\<close>

lemma bndE:
  assumes "bnd m f = Inr y"
  obtains x where "m = Inr x" "f x = Inr y"
  using assms by (cases m) (simp_all add: bnd_def)






































section \<open>realloc to the same size\<close>


section \<open>Links, buckets and flags\<close>

lemma wrptr_Inr:
  "wrptr s a p = Inr s' \<longleftrightarrow> mapped s a \<and> mapped s (a + 4) \<and>
     s' = s\<lparr>mem := (mem s)(a := of_nat p, a + 4 := of_nat (p div 2 ^ 32))\<rparr>"
  by (auto simp: wrptr_def wr32_def bnd_def)

lemma set_bucket_Inr:
  "set_bucket s i p = Inr s' \<longleftrightarrow>
     0 \<le> i \<and> i < NUM_BUCKETS \<and> s' = s\<lparr>buckets := (buckets s)(nat i := p)\<rparr>"
  by (auto simp: set_bucket_def)

lemma remove_from_list_frame:
  assumes "remove_from_list s c i = Inr s'"
  shows "seg_base s' = seg_base s \<and> seg_pages s' = seg_pages s \<and> max_block s' = max_block s
         \<and> min_block s' = min_block s"
  using assms
  by (auto simp: remove_from_list_def set_next_in_list_def set_prev_in_list_def wrptr_Inr
      set_bucket_Inr elim!: bndE split: if_splits)

lemma mapped_cong: "seg_base s' = seg_base s \<Longrightarrow> seg_pages s' = seg_pages s \<Longrightarrow> mapped s' a = mapped s a"
  by (simp add: mapped_def)

subsection \<open>Writes that touch flags only\<close>

lemma same_sizes_refl [simp]: "same_sizes s s"
  by (simp add: same_sizes_def)

lemma same_sizes_trans: "same_sizes s s1 \<Longrightarrow> same_sizes s1 s2 \<Longrightarrow> same_sizes s s2"
  by (simp add: same_sizes_def)

lemma same_sizes_get_size: "same_sizes s s' \<Longrightarrow> get_size s' p = get_size s p"
  by (simp add: same_sizes_def get_size_def rd32_def mapped_def)

lemma set_prevfree_sizes: "set_prevfree s b = Inr s' \<Longrightarrow> same_sizes s s'"
  by (auto simp: set_prevfree_def get_next_Inr rd32_Inr wr32_Inr same_sizes_def elim!: bndE)

lemma set_nextfree_sizes: "set_nextfree s b = Inr s' \<Longrightarrow> same_sizes s s'"
  by (auto simp: set_nextfree_def get_prev_Inr get_payloadsz_Inr set_payload_size_Inr
      same_sizes_def elim!: bndE)

lemma set_free_sizes: "set_free s b = Inr s' \<Longrightarrow> same_sizes s s'"
  by (auto simp: set_free_def get_payloadsz_Inr set_payload_size_Inr same_sizes_def elim!: bndE)

subsection \<open>Pointers in memory\<close>

lemma ptr_roundtrip:
  assumes "p < 2 ^ 64"
  shows "unat (of_nat p :: u32) + 2 ^ 32 * unat (of_nat (p div 2 ^ 32) :: u32) = p"
proof -
  have "p div 2 ^ 32 < 2 ^ 32" using assms by (simp add: less_mult_imp_div_less)
  then show ?thesis by (simp add: unat_of_nat)
qed

lemma rdptr_wrptr:
  assumes "wrptr s a p = Inr s'" "p < 2 ^ 64"
  shows "rdptr s' a = Inr p"
  using assms ptr_roundtrip [OF assms(2)]
  by (auto simp: wrptr_Inr rdptr_def rd32_def)

lemma same_sizes_max [simp]: "same_sizes s (s\<lparr>max_block := x\<rparr>)"
  by (simp add: same_sizes_def)

section \<open>More facts for the store\<close>

lemma rdptr_Inr:
  "rdptr s a = Inr p \<longleftrightarrow> mapped s a \<and> mapped s (a + 4) \<and>
     p = unat (mem s a) + 2 ^ 32 * unat (mem s (a + 4))"
  by (auto simp: rdptr_def rd32_def bnd_def)

lemma remove_from_list_mem:
  assumes "remove_from_list s c i = Inr s1"
    and "get_prev_in_list s c = Inr pf" "get_next_in_list s c = Inr nf"
    and "a \<notin> {pf, pf + 4, nf + PTR, nf + PTR + 4}"
  shows "mem s1 a = mem s a"
  using assms
  by (auto simp: remove_from_list_def set_next_in_list_def set_prev_in_list_def wrptr_Inr
      set_bucket_Inr elim!: bndE split: if_splits)

lemma flags_masked:
  "(x OR (v AND (FREE_MASK OR NEXT_FREE OR PREV_FREE))) AND SIZE_MASK = x AND SIZE_MASK"
  "(x OR (w AND NEXT_FREE)) AND SIZE_MASK = x AND SIZE_MASK"
  by (simp_all add: bit.conj_disj_distrib2 and.assoc SIZE_MASK_def FREE_MASK_def NEXT_FREE_def
      PREV_FREE_def)

lemma roundup_mono: "unat n \<le> (unat n + 7) div 8 * 8"
  by arith

section \<open>alloc returns NULL for the size 0 only\<close>

lemma scan_bucket_nonnull:
  "scan_bucket fuel s i c r = Inr (Some (s', q)) \<Longrightarrow> q \<noteq> 0"
proof (induction fuel arbitrary: c)
  case 0
  then show ?case by simp
next
  case (Suc n)
  then show ?case by (auto elim!: bndE split: if_splits)
qed

lemma scan_buckets_null:
  "scan_buckets fuel s is r = Inr (s', 0) \<Longrightarrow> s' = s"
proof (induction "is")
  case Nil
  then show ?case by simp
next
  case (Cons i rest)
  then show ?case
    by (auto elim!: bndE dest!: scan_bucket_nonnull split: option.splits)
qed

lemma get_new_page_nonnull: "get_new_page fuel s r = Inr (s', q) \<Longrightarrow> q \<noteq> 0"
  by (auto simp: get_new_page_def Let_def payload_for_hdr_def HDR_def elim!: bndE
      split: if_splits prod.splits)

lemma mymalloc_null_iff:
  assumes "mymalloc fuel s n = Inr (s', p)"
  shows "(p = 0 \<longleftrightarrow> n = 0) \<and> (n = 0 \<longrightarrow> s' = s)"
proof (cases "n = 0")
  case True
  with assms show ?thesis by (simp add: mymalloc_def)
next
  case False
  with assms have "p \<noteq> 0"
    by (auto simp: mymalloc_def Let_def elim!: bndE dest!: get_new_page_nonnull split: if_splits)
  with False show ?thesis by simp
qed

section \<open>The size and the alignment of an allocated block\<close>

subsection \<open>Nodes and links\<close>

lemma get_bucket_Inr:
  "get_bucket s i = Inr h \<longleftrightarrow> 0 \<le> i \<and> i < NUM_BUCKETS \<and> h = buckets s (nat i)"
  by (auto simp: get_bucket_def)

lemma get_next_in_list_Inr:
  "get_next_in_list s m = Inr q \<longleftrightarrow> mapped s m \<and> mapped s (m + 4) \<and> q = ptr_at s m"
  by (simp add: get_next_in_list_def rdptr_Inr ptr_at_def)

lemma get_prev_in_list_Inr:
  "get_prev_in_list s m = Inr q \<longleftrightarrow> mapped s (m + 8) \<and> mapped s (m + 12) \<and> q = ptr_at s (m + 8)"
  by (simp add: get_prev_in_list_def rdptr_Inr ptr_at_def PTR_def add.assoc)

lemma closed_next: "closed s ns \<Longrightarrow> m \<in> ns \<Longrightarrow> ptr_at s m = 0 \<or> ptr_at s m \<in> ns"
  by (auto simp: closed_def)

lemma closed_head:
  "closed s ns \<Longrightarrow> get_bucket s i = Inr h \<Longrightarrow> h = 0 \<or> h \<in> ns"
  by (auto simp: closed_def get_bucket_Inr)

lemma free_walk_closed:
  assumes "closed s ns"
  shows "free_walk fuel s p pr c = Inr (pr', c') \<Longrightarrow> pr = 0 \<or> pr \<in> ns \<Longrightarrow> c = 0 \<or> c \<in> ns \<Longrightarrow>
     (pr' = 0 \<or> pr' \<in> ns) \<and> (c' = 0 \<or> c' \<in> ns)"
proof (induction fuel arbitrary: pr c)
  case 0
  then show ?case by simp
next
  case (Suc n)
  show ?case
  proof (cases "c = 0")
    case True
    with Suc.prems show ?thesis by auto
  next
    case False
    with Suc.prems(3) have cn: "c \<in> ns" by simp
    from Suc.prems(1) False obtain cs ps :: u32 where
      r: "(if cs \<ge> ps then Inr (pr, c)
           else bnd (get_next_in_list s c) (\<lambda>nxt. free_walk n s p c nxt)) = Inr (pr', c')"
      by (auto elim!: bndE)
    show ?thesis
    proof (cases "cs \<ge> ps")
      case True
      with r Suc.prems cn show ?thesis by auto
    next
      case False
      with r obtain nxt where nx: "get_next_in_list s c = Inr nxt"
        and w: "free_walk n s p c nxt = Inr (pr', c')"
        by (auto elim!: bndE)
      from nx have "nxt = ptr_at s c" by (simp add: get_next_in_list_Inr)
      with closed_next [OF assms cn] have "nxt = 0 \<or> nxt \<in> ns" by simp
      from Suc.IH [OF w _ this] cn show ?thesis by simp
    qed
  qed
qed

lemma only_links_refl [simp]: "only_links ms s s"
  by (simp add: only_links_def)

lemma only_links_trans: "only_links ms s s1 \<Longrightarrow> only_links ms s1 s2 \<Longrightarrow> only_links ms s s2"
  unfolding only_links_def by metis

lemma only_links_next:
  "set_next_in_list s m q = Inr s' \<Longrightarrow> m \<in> ms \<Longrightarrow> only_links ms s s'"
  by (auto simp: set_next_in_list_def wrptr_Inr only_links_def link_cells_def)

lemma only_links_prev:
  "set_prev_in_list s m q = Inr s' \<Longrightarrow> m \<in> ms \<Longrightarrow> only_links ms s s'"
  by (auto simp: set_prev_in_list_def wrptr_Inr only_links_def link_cells_def PTR_def)

lemma only_links_bucket:
  "set_bucket s i q = Inr s' \<Longrightarrow> only_links ms s s'"
  by (auto simp: set_bucket_Inr only_links_def)

lemma head_insert_links:
  assumes "head_insert s p b h = Inr s'" "p \<in> ms" "h = 0 \<or> h \<in> ms"
  shows "only_links ms s s'"
proof -
  from assms(1) [unfolded head_insert_def]
  obtain s1 s2 s3 where a: "set_prev_in_list s p 0 = Inr s1"
    and b: "set_next_in_list s1 p h = Inr s2"
    and c: "(if h \<noteq> 0 then set_prev_in_list s2 h p else Inr s2) = Inr s3"
    and d: "set_bucket s3 b p = Inr s'"
    by (elim bndE) (rule that)
  have "only_links ms s2 s3" using c assms(3) by (auto intro: only_links_prev split: if_splits)
  with only_links_prev [OF a assms(2)] only_links_next [OF b assms(2)] only_links_bucket [OF d]
  show ?thesis by (blast intro: only_links_trans)
qed

lemma free_insert_links_only:
  assumes cl: "closed s ns" and ins: "free_insert fuel s p = Inr s'"
  shows "only_links (insert p ns) s s'"
proof -
  let ?ms = "insert p ns"
  from ins [unfolded free_insert_def Let_def]
  obtain sz h where gs: "get_size s p = Inr sz" and gb: "get_bucket s (cal_bucket sz) = Inr h"
    and rest: "(if h = 0 then head_insert s p (cal_bucket sz) h
         else bnd (get_size s h) (\<lambda>cs. bnd (get_size s p) (\<lambda>ps.
           if cs > ps then head_insert s p (cal_bucket sz) h
           else
             bnd (free_walk fuel s p h h) (\<lambda>(prev, cur).
             bnd (if cur \<noteq> 0 then set_prev_in_list s cur p else Inr s) (\<lambda>s1.
             bnd (set_next_in_list s1 p cur) (\<lambda>s2.
             bnd (if prev \<noteq> 0 then set_prev_in_list s2 p prev else Inr s2) (\<lambda>s3.
             if prev \<noteq> 0 then set_next_in_list s3 prev p else Inr s3))))))) = Inr s'"
    by (elim bndE) (rule that)
  have h: "h = 0 \<or> h \<in> ?ms" using closed_head [OF cl gb] by auto
  have hi: "head_insert s p (cal_bucket sz) h = Inr s' \<Longrightarrow> ?thesis"
    using h by (auto intro: head_insert_links)
  show ?thesis
  proof (cases "h = 0")
    case True
    with rest hi show ?thesis by simp
  next
    case False
    with rest obtain cs ps :: u32 where
      r2: "(if cs > ps then head_insert s p (cal_bucket sz) h
           else
             bnd (free_walk fuel s p h h) (\<lambda>(prev, cur).
             bnd (if cur \<noteq> 0 then set_prev_in_list s cur p else Inr s) (\<lambda>s1.
             bnd (set_next_in_list s1 p cur) (\<lambda>s2.
             bnd (if prev \<noteq> 0 then set_prev_in_list s2 p prev else Inr s2) (\<lambda>s3.
             if prev \<noteq> 0 then set_next_in_list s3 prev p else Inr s3))))) = Inr s'"
      by (auto elim!: bndE)
    show ?thesis
    proof (cases "cs > ps")
      case True
      with r2 hi show ?thesis by simp
    next
      case False
      with r2 obtain prev cur s1 s2 s3 where
        w: "free_walk fuel s p h h = Inr (prev, cur)"
        and a: "(if cur \<noteq> 0 then set_prev_in_list s cur p else Inr s) = Inr s1"
        and b: "set_next_in_list s1 p cur = Inr s2"
        and c: "(if prev \<noteq> 0 then set_prev_in_list s2 p prev else Inr s2) = Inr s3"
        and d: "(if prev \<noteq> 0 then set_next_in_list s3 prev p else Inr s3) = Inr s'"
        by (auto elim!: bndE)
      from closed_head [OF cl gb] have "h = 0 \<or> h \<in> ns" .
      from free_walk_closed [OF cl w this this]
      have pc: "prev = 0 \<or> prev \<in> ?ms" "cur = 0 \<or> cur \<in> ?ms" by auto
      have 1: "only_links ?ms s s1" using a pc by (auto intro: only_links_prev split: if_splits)
      have 2: "only_links ?ms s1 s2" using b by (auto intro: only_links_next)
      have 3: "only_links ?ms s2 s3" using c by (auto intro: only_links_prev split: if_splits)
      have 4: "only_links ?ms s3 s'" using d pc by (auto intro: only_links_next split: if_splits)
      from 1 2 3 4 show ?thesis by (blast intro: only_links_trans)
    qed
  qed
qed

lemma ok_node:
  assumes "free_lists_ok s ns" "m \<in> ns"
  shows "8 dvd m" "seg_base s + 8 \<le> m" "m + 16 \<le> seg_base s + PAGE_SIZE * seg_pages s"
    "ptr_at s m = 0 \<or> ptr_at s m \<in> ns" "ptr_at s (m + 8) = 0 \<or> ptr_at s (m + 8) \<in> ns"
  using assms by (simp_all add: free_lists_ok_def)

lemma ok_region:
  assumes "free_lists_ok s ns" "q \<in> ns" "m \<in> ns" "m \<noteq> q"
  shows "m + 16 \<le> q - 8 \<or> q + unat (mem s (q - 8) AND SIZE_MASK) + 8 \<le> m"
  using assms by (simp add: free_lists_ok_def)

lemma ok_sep:
  assumes ok: "free_lists_ok s ns" and m: "m \<in> ns" and m': "m' \<in> ns" and ne: "m \<noteq> m'"
  shows "m + 24 \<le> m' \<or> m' + 24 \<le> m"
proof -
  define z where "z = unat (mem s (m - 8) AND SIZE_MASK)"
  define z' where "z' = unat (mem s (m' - 8) AND SIZE_MASK)"
  have a: "m' + 16 \<le> m - 8 \<or> m + z + 8 \<le> m'"
    using ok_region [OF ok m m'] ne by (simp add: z_def)
  have b: "m + 16 \<le> m' - 8 \<or> m' + z' + 8 \<le> m"
    using ok_region [OF ok m' m] ne by (simp add: z'_def)
  from a b show ?thesis by arith
qed

lemma ptr_at_cong:
  "mem s' a = mem s a \<Longrightarrow> mem s' (a + 4) = mem s (a + 4) \<Longrightarrow> ptr_at s' a = ptr_at s a"
  by (simp add: ptr_at_def)

lemma ptr_at_less: "ptr_at s a < 2 ^ 64"
proof -
  have "unat (mem s a) < 2 ^ 32" "unat (mem s (a + 4)) < 2 ^ 32"
    using unsigned_less [of "mem s a"] unsigned_less [of "mem s (a + 4)"] by simp_all
  then show ?thesis unfolding ptr_at_def by simp
qed

lemma ptr_at_written:
  assumes "p < 2 ^ 64"
  shows "ptr_at (s\<lparr>mem := (mem s)(a := of_nat p, a + 4 := of_nat (p div 2 ^ 32))\<rparr>) a = p"
  using ptr_roundtrip [OF assms] by (simp add: ptr_at_def)

lemma wrptr_ptr_at_other:
  "wrptr s a p = Inr s' \<Longrightarrow> b + 8 \<le> a \<or> a + 8 \<le> b \<Longrightarrow> ptr_at s' b = ptr_at s b"
  by (auto simp: wrptr_Inr ptr_at_def)

lemma wrptr_ptr_at_same:
  "wrptr s a p = Inr s' \<Longrightarrow> p < 2 ^ 64 \<Longrightarrow> ptr_at s' a = p"
  using ptr_at_written [of p s a] by (auto simp: wrptr_Inr)

lemma wrptr_buckets: "wrptr s a p = Inr s' \<Longrightarrow> buckets s' = buckets s"
  by (auto simp: wrptr_Inr)

lemma remove_from_list_closed:
  assumes ok: "free_lists_ok s ns" and q: "q \<in> ns" and r: "remove_from_list s q i = Inr s1"
  shows "closed s1 ns \<and> only_links ns s s1"
proof -
  from r [unfolded remove_from_list_def]
  obtain pf nf s' where gp: "get_prev_in_list s q = Inr pf" and gn: "get_next_in_list s q = Inr nf"
    and a: "(if pf \<noteq> 0 then set_next_in_list s pf nf else set_bucket s i nf) = Inr s'"
    and b: "(if nf \<noteq> 0 then set_prev_in_list s' nf pf else Inr s') = Inr s1"
    by (elim bndE) (rule that)
  have pf: "pf = ptr_at s (q + 8)" using gp by (simp add: get_prev_in_list_Inr)
  have nf: "nf = ptr_at s q" using gn by (simp add: get_next_in_list_Inr)
  have pfn: "pf = 0 \<or> pf \<in> ns" and nfn: "nf = 0 \<or> nf \<in> ns"
    using ok_node [OF ok q] by (simp_all add: pf nf)
  have nfl: "nf < 2 ^ 64" unfolding nf by (rule ptr_at_less)
  have l1: "only_links ns s s'" using a pfn
    by (auto intro: only_links_next only_links_bucket split: if_splits)
  have l2: "only_links ns s' s1" using b nfn
    by (auto intro: only_links_prev split: if_splits)
  have bk0: "\<forall>i. 0 \<le> i \<and> i < NUM_BUCKETS \<longrightarrow> buckets s (nat i) = 0 \<or> buckets s (nat i) \<in> ns"
    using ok unfolding free_lists_ok_def by blast
  have bk1: "\<forall>i. 0 \<le> i \<and> i < NUM_BUCKETS \<longrightarrow> buckets s' (nat i) = 0 \<or> buckets s' (nat i) \<in> ns"
  proof (cases "pf = 0")
    case True
    with a have "s' = s\<lparr>buckets := (buckets s)(nat i := nf)\<rparr>" by (simp add: set_bucket_Inr)
    with bk0 nfn show ?thesis by simp
  next
    case False
    with a have "buckets s' = buckets s" by (simp add: set_next_in_list_def wrptr_buckets)
    with bk0 show ?thesis by simp
  qed
  have "buckets s1 = buckets s'" using b
    by (cases "nf = 0") (simp_all add: set_prev_in_list_def wrptr_buckets)
  with bk1 have bk: "\<forall>i. 0 \<le> i \<and> i < NUM_BUCKETS \<longrightarrow> buckets s1 (nat i) = 0 \<or> buckets s1 (nat i) \<in> ns"
    by simp
  have nx: "ptr_at s1 m = 0 \<or> ptr_at s1 m \<in> ns" if m: "m \<in> ns" for m
  proof -
    have keep2: "ptr_at s1 m = ptr_at s' m"
    proof (cases "nf = 0")
      case True
      with b show ?thesis by simp
    next
      case False
      with nfn have n: "nf \<in> ns" by simp
      have "m = nf \<or> m + 24 \<le> nf \<or> nf + 24 \<le> m" using ok_sep [OF ok m n] by blast
      then have "m + 8 \<le> nf + PTR \<or> nf + PTR + 8 \<le> m" unfolding PTR_def by arith
      moreover from b False have "wrptr s' (nf + PTR) pf = Inr s1"
        by (simp add: set_prev_in_list_def)
      ultimately show ?thesis by (rule wrptr_ptr_at_other [rotated])
    qed
    show ?thesis
    proof (cases "pf = 0")
      case True
      with a have "s' = s\<lparr>buckets := (buckets s)(nat i := nf)\<rparr>" by (simp add: set_bucket_Inr)
      then have "ptr_at s' m = ptr_at s m" by (simp add: ptr_at_def)
      with keep2 ok_node(4) [OF ok m] show ?thesis by simp
    next
      case pz: False
      with pfn have p: "pf \<in> ns" by simp
      from a pz have w: "wrptr s pf nf = Inr s'" by (simp add: set_next_in_list_def)
      show ?thesis
      proof (cases "m = pf")
        case True
        with wrptr_ptr_at_same [OF w nfl] keep2 nfn show ?thesis by simp
      next
        case False
        then have "m + 24 \<le> pf \<or> pf + 24 \<le> m" using ok_sep [OF ok m p] by blast
        then have "m + 8 \<le> pf \<or> pf + 8 \<le> m" by arith
        from wrptr_ptr_at_other [OF w this] keep2 ok_node(4) [OF ok m] show ?thesis by simp
      qed
    qed
  qed
  from bk nx have "closed s1 ns" unfolding closed_def by blast
  with l1 l2 show ?thesis by (blast intro: only_links_trans)
qed

lemma scan_bucket_found:
  assumes ok: "free_lists_ok s ns"
  shows "scan_bucket fuel s i c r = Inr (Some (s1, q)) \<Longrightarrow> c = 0 \<or> c \<in> ns \<Longrightarrow>
     q \<in> ns \<and> remove_from_list s q i = Inr s1 \<and>
     (\<exists>sz. get_size s q = Inr sz \<and> r \<le> ucast sz)"
proof (induction fuel arbitrary: c)
  case 0
  then show ?case by simp
next
  case (Suc n)
  from Suc.prems(1) have cz: "c \<noteq> 0" by (auto split: if_splits)
  with Suc.prems(2) have cn: "c \<in> ns" by simp
  from Suc.prems(1) cz obtain sz where gs: "get_size s c = Inr sz"
    and rest: "(if ucast sz \<ge> r
        then bnd (remove_from_list s c i) (\<lambda>s1. Inr (Some (s1, c)))
        else bnd (get_next_in_list s c) (\<lambda>nxt. scan_bucket n s i nxt r)) = Inr (Some (s1, q))"
    by (auto elim!: bndE)
  show ?case
  proof (cases "ucast sz \<ge> r")
    case True
    with rest gs cn show ?thesis by (auto elim!: bndE)
  next
    case False
    with rest obtain nxt where nx: "get_next_in_list s c = Inr nxt"
      and sc: "scan_bucket n s i nxt r = Inr (Some (s1, q))"
      by (auto elim!: bndE)
    from nx have "nxt = ptr_at s c" by (simp add: get_next_in_list_Inr)
    with ok_node(4) [OF ok cn] have "nxt = 0 \<or> nxt \<in> ns" by simp
    from Suc.IH [OF sc this] show ?thesis .
  qed
qed

lemma scan_buckets_found:
  assumes ok: "free_lists_ok s ns"
  shows "scan_buckets fuel s bs r = Inr (s1, q) \<Longrightarrow> q \<noteq> 0 \<Longrightarrow>
     q \<in> ns \<and> (\<exists>i. remove_from_list s q i = Inr s1) \<and>
     (\<exists>sz. get_size s q = Inr sz \<and> r \<le> ucast sz)"
proof (induction bs)
  case Nil
  then show ?case by simp
next
  case (Cons i rest)
  from Cons.prems(1) obtain h res where gb: "get_bucket s i = Inr h"
    and sb: "scan_bucket fuel s i h r = Inr res"
    and k: "(case res of Some found \<Rightarrow> Inr found
             | None \<Rightarrow> scan_buckets fuel s rest r) = Inr (s1, q)"
    by (auto elim!: bndE)
  have hn: "h = 0 \<or> h \<in> ns" using ok gb
    by (simp add: free_lists_ok_def get_bucket_Inr)
  show ?case
  proof (cases res)
    case None
    with k Cons show ?thesis by simp
  next
    case (Some found)
    with k have "res = Some (s1, q)" by simp
    with sb scan_bucket_found [OF ok _ hn] show ?thesis by blast
  qed
qed

subsection \<open>The cells that a call changes\<close>

lemma only_cells_refl [simp]: "only_cells A s s"
  by (simp add: only_cells_def)

lemma only_cells_max [simp]: "only_cells A s (s\<lparr>max_block := x\<rparr>)"
  by (simp add: only_cells_def)

lemma only_cells_trans:
  "only_cells A s s1 \<Longrightarrow> only_cells B s1 s2 \<Longrightarrow> only_cells (A \<union> B) s s2"
  unfolding only_cells_def by (metis UnCI)

lemma only_cells_mono: "only_cells A s s' \<Longrightarrow> A \<subseteq> B \<Longrightarrow> only_cells B s s'"
  unfolding only_cells_def by blast

lemma only_cells_mem: "only_cells A s s' \<Longrightarrow> a \<notin> A \<Longrightarrow> mem s' a = mem s a"
  unfolding only_cells_def by blast

lemma only_cells_mapped: "only_cells A s s' \<Longrightarrow> mapped s' a = mapped s a"
  unfolding only_cells_def by (simp add: mapped_def)

lemma wr32_cells: "wr32 s a v = Inr s' \<Longrightarrow> only_cells {a} s s'"
  by (auto simp: wr32_Inr only_cells_def)

lemma set_payload_size_cells: "set_payload_size s p v = Inr s' \<Longrightarrow> only_cells {p - 8} s s'"
  by (auto simp: set_payload_size_Inr only_cells_def)

lemma set_prevpayload_size_cells:
  "set_prevpayload_size s p v = Inr s' \<Longrightarrow> only_cells {p - 8 + 4} s s'"
  by (auto simp: set_prevpayload_size_Inr only_cells_def)

lemma set_prevfree_cells:
  "set_prevfree s b = Inr s' \<Longrightarrow> only_cells {b + unat (mem s (b - 8) AND SIZE_MASK)} s s'"
  by (auto simp: set_prevfree_def get_next_Inr rd32_Inr wr32_Inr only_cells_def elim!: bndE
      split: if_splits)

lemma set_nextfree_cells:
  "set_nextfree s b = Inr s' \<Longrightarrow>
     only_cells {b - 8 - unat (mem s (b - 8 + 4) AND SIZE_MASK) - 8} s s'"
  by (auto simp: set_nextfree_def get_prev_Inr get_payloadsz_Inr set_payload_size_Inr
      only_cells_def elim!: bndE split: if_splits)

lemma set_free_cells: "set_free s b = Inr s' \<Longrightarrow> only_cells {b - 8} s s'"
  by (auto simp: set_free_def get_payloadsz_Inr set_payload_size_Inr only_cells_def elim!: bndE
      split: if_splits)

text \<open>A remainder that was just cut off has no flag in its header: \<open>coalesce\<close> leaves it
  alone, and \<open>myfree\<close> sets three flags before it inserts the block.\<close>

lemma coalesce_noflags:
  assumes "coalesce s p = Inr (s', r)" "mem s (p - 8) AND SIZE_MASK = mem s (p - 8)"
  shows "s' = s \<and> r = p"
proof -
  have "mem s (p - 8) AND PREV_FREE = 0" "mem s (p - 8) AND NEXT_FREE = 0"
    using mask_flags [of "mem s (p - 8)"] assms(2) by simp_all
  with assms(1) show ?thesis
    by (auto simp: coalesce_def flag_reads elim!: bndE)
qed

lemma myfree_remainder:
  assumes fr: "myfree fuel u nf = Inr u'"
    and hdr: "mem u (nf - 8) AND SIZE_MASK = mem u (nf - 8)"
    and nf: "16 \<le> nf"
  shows "\<exists>t. free_insert fuel t nf = Inr u' \<and> same_sizes u t \<and>
     only_cells {nf - 8, nf + unat (mem u (nf - 8)),
                 nf - 8 - unat (mem u (nf - 8 + 4) AND SIZE_MASK) - 8} u t"
proof -
  let ?A = "{nf - 8, nf + unat (mem u (nf - 8)),
             nf - 8 - unat (mem u (nf - 8 + 4) AND SIZE_MASK) - 8}"
  from nf have nz: "nf \<noteq> 0" by simp
  from fr [unfolded myfree_def] nz
  obtain c where co: "coalesce u nf = Inr c"
    and rest: "(case c of (s1, ptr) \<Rightarrow>
        bnd (if ptr < max_block s1 then set_prevfree s1 ptr else Inr s1) (\<lambda>s2.
        bnd (if ptr \<noteq> min_block s2 then set_nextfree s2 ptr else Inr s2) (\<lambda>s3.
        bnd (set_free s3 ptr) (\<lambda>s4.
        free_insert fuel (if ptr > max_block s4 then s4\<lparr>max_block := ptr\<rparr> else s4) ptr)))) = Inr u'"
    by (auto elim!: bndE)
  obtain s1 ptr where c: "c = (s1, ptr)" by (cases c)
  from coalesce_noflags [OF co [unfolded c] hdr] have id: "s1 = u" "ptr = nf" by simp_all
  from rest [unfolded c id prod.case]
  obtain s2 s3 s4 where
    a: "(if nf < max_block u then set_prevfree u nf else Inr u) = Inr s2"
    and b: "(if nf \<noteq> min_block s2 then set_nextfree s2 nf else Inr s2) = Inr s3"
    and d: "set_free s3 nf = Inr s4"
    and e: "free_insert fuel (if nf > max_block s4 then s4\<lparr>max_block := nf\<rparr> else s4) nf = Inr u'"
    by (elim bndE) (rule that)
  let ?c1 = "nf + unat (mem u (nf - 8))"
  have a1: "only_cells {?c1} u s2" "same_sizes u s2"
    using a hdr set_prevfree_cells [of u nf s2] set_prevfree_sizes [of u nf s2]
    by (auto split: if_splits)
  have "nf - 8 + 4 \<noteq> ?c1" using nf by arith
  then have m2: "mem s2 (nf - 8 + 4) = mem u (nf - 8 + 4)"
    using only_cells_mem [OF a1(1)] by simp
  have b1: "only_cells {nf - 8 - unat (mem u (nf - 8 + 4) AND SIZE_MASK) - 8} s2 s3" "same_sizes s2 s3"
    using b m2 set_nextfree_cells [of s2 nf s3] set_nextfree_sizes [of s2 nf s3]
    by (auto split: if_splits)
  have d1: "only_cells {nf - 8} s3 s4" "same_sizes s3 s4"
    using d by (auto intro: set_free_cells set_free_sizes)
  define t where "t = (if nf > max_block s4 then s4\<lparr>max_block := nf\<rparr> else s4)"
  have t1: "only_cells {} s4 t" "same_sizes s4 t" by (simp_all add: t_def)
  have "same_sizes u t"
    using a1(2) b1(2) d1(2) t1(2) by (blast intro: same_sizes_trans)
  moreover have "only_cells ?A u t"
    using only_cells_trans [OF only_cells_trans [OF only_cells_trans [OF a1(1) b1(1)] d1(1)] t1(1)]
    by (rule only_cells_mono) auto
  moreover have "free_insert fuel t nf = Inr u'" using e by (simp add: t_def)
  ultimately show ?thesis by blast
qed

subsection \<open>The three ways to place a request in a block from a list\<close>

lemma sub_hdr:
  assumes "8 \<le> unat (x :: u32)"
  shows "unat (ucast ((ucast x :: size_t) - of_nat HDR) :: u32) = unat x - 8"
proof -
  have u: "unat (ucast x :: size_t) = unat x" by (rule unat_ucast_up)
  have "(8 :: size_t) \<le> ucast x" using assms u by (simp add: word_le_nat_alt)
  then have "unat ((ucast x :: size_t) - 8) = unat x - 8" using u by (simp add: unat_sub)
  moreover have "unat x < 2 ^ 32" using unsigned_less [of x] by simp
  then have "unat x - 8 < 2 ^ 32" by simp
  ultimately show ?thesis by (simp add: HDR_def unat_ucast_down)
qed

lemma malloc_split_effect:
  assumes ms: "malloc_split fuel s q req rem = Inr s'"
    and hq: "mem s (q - 8) = r32" and rm: "r32 AND SIZE_MASK = r32" and rq: "ucast req = r32"
    and q8: "8 \<le> q"
    and d: "24 \<le> unat rem" "unat rem < 2 ^ 31" "4 dvd unat rem"
  shows "\<exists>t. free_insert fuel t (q + unat r32 + 8) = Inr s' \<and>
     only_cells {q - 8, q + unat r32, q + unat r32 + 4, q + unat r32 + unat rem,
                 q + unat r32 + unat rem + 4} s t \<and>
     mem t (q - 8) AND SIZE_MASK = r32"
proof -
  define R where "R = unat r32"
  define D where "D = unat rem"
  define nf where "nf = q + R + 8"
  define X :: u32 where "X = ucast ((ucast rem :: size_t) - of_nat HDR)"
  let ?W = "{q - 8, q + R, q + R + 4, q + R + D, q + R + D + 4}"
  have uX: "unat X = D - 8" unfolding X_def D_def using d(1) by (intro sub_hdr) simp
  have Xm: "X AND SIZE_MASK = X"
  proof (rule masked_id)
    show "4 dvd unat X" using uX d(1,3) by (simp add: D_def dvd_diff_nat)
    show "unat X < 2 ^ 31" using uX d(2) by (simp add: D_def)
  qed
  have D24: "24 \<le> D" using d(1) by (simp add: D_def)
  have gn: "get_next s q = Inr h \<Longrightarrow> payload_for_hdr h = nf" for h
    by (simp add: get_next_Inr hq rm payload_for_hdr_def HDR_def nf_def R_def)
  from ms [unfolded malloc_split_def Let_def rq]
  obtain h s1 s2 s4 where h: "get_next s q = Inr h"
    and w1: "set_payload_size s (payload_for_hdr h)
               (ucast ((ucast rem :: size_t) - of_nat HDR)) = Inr s1"
    and w2: "set_prevpayload_size s1 (payload_for_hdr h) r32 = Inr s2"
    and w3: "(if payload_for_hdr h < max_block s2
              then bnd (get_next s2 (payload_for_hdr h)) (\<lambda>h2.
                   bnd (get_size s2 (payload_for_hdr h)) (\<lambda>nsz.
                   bnd (set_prevpayload_size s2 (payload_for_hdr h2) nsz) (\<lambda>s3.
                   set_prevfree s3 (payload_for_hdr h))))
              else Inr s2) = Inr s4"
    and fr: "myfree fuel (if payload_for_hdr h > max_block s4
               then s4\<lparr>max_block := payload_for_hdr h\<rparr> else s4) (payload_for_hdr h) = Inr s'"
    by (elim bndE) (rule that)
  note w1 = w1 [unfolded gn [OF h], folded X_def] and w2 = w2 [unfolded gn [OF h]]
    and w3 = w3 [unfolded gn [OF h]] and fr = fr [unfolded gn [OF h]]
  have e: "nf - 8 = q + R" "nf - 8 + 4 = q + R + 4" by (simp_all add: nf_def)
  have c1: "only_cells {q + R} s s1" using set_payload_size_cells [OF w1] by (simp add: e)
  have c2: "only_cells {q + R + 4} s1 s2" using set_prevpayload_size_cells [OF w2] by (simp add: e)
  have m2: "mem s2 (q + R) = X" "mem s2 (q + R + 4) = r32"
    using w1 w2 by (auto simp: set_payload_size_Inr set_prevpayload_size_Inr e)
  have c3: "only_cells {q + R + D, q + R + D + 4} s2 s4"
  proof (cases "nf < max_block s2")
    case False
    with w3 show ?thesis by simp
  next
    case True
    with w3 obtain h2 nsz s3 where h2: "get_next s2 nf = Inr h2"
      and w: "set_prevpayload_size s2 (payload_for_hdr h2) nsz = Inr s3"
      and pf: "set_prevfree s3 nf = Inr s4"
      by (auto elim!: bndE)
    have h2e: "h2 = q + R + D" using h2 uX D24
      by (simp add: get_next_Inr e m2 Xm nf_def)
    have a: "only_cells {q + R + D + 4} s2 s3"
      using set_prevpayload_size_cells [OF w] by (simp add: h2e payload_for_hdr_def HDR_def)
    have "q + R \<noteq> q + R + D + 4" by simp
    then have "mem s3 (q + R) = X" using only_cells_mem [OF a] m2 by simp
    then have b: "only_cells {q + R + D} s3 s4"
      using set_prevfree_cells [OF pf] uX D24 by (simp add: e Xm nf_def add.assoc)
    from only_cells_trans [OF a b] show ?thesis by (rule only_cells_mono) auto
  qed
  define u where "u = (if nf > max_block s4 then s4\<lparr>max_block := nf\<rparr> else s4)"
  have c4: "only_cells {q + R + D, q + R + D + 4} s2 u"
    using c3 by (simp add: u_def only_cells_def)
  have fr': "myfree fuel u nf = Inr s'" using fr by (simp add: u_def)
  have "q + R \<notin> {q + R + D, q + R + D + 4}" "q + R + 4 \<notin> {q + R + D, q + R + D + 4}"
    using D24 by simp_all
  then have mu: "mem u (q + R) = X" "mem u (q + R + 4) = r32"
    using only_cells_mem [OF c4] m2 by simp_all
  have su: "only_cells {q + R, q + R + 4, q + R + D, q + R + D + 4} s u"
    using only_cells_trans [OF only_cells_trans [OF c1 c2] c4] by (rule only_cells_mono) auto
  have "q - 8 \<notin> {q + R, q + R + 4, q + R + D, q + R + D + 4}" using q8 by auto
  then have muq: "mem u (q - 8) = r32" using only_cells_mem [OF su] hq by simp
  have "mem u (nf - 8) AND SIZE_MASK = mem u (nf - 8)" by (simp add: e mu Xm)
  moreover have "16 \<le> nf" using q8 by (simp add: nf_def)
  ultimately obtain t where ins: "free_insert fuel t nf = Inr s'" and ss: "same_sizes u t"
    and ct: "only_cells {nf - 8, nf + unat (mem u (nf - 8)),
                 nf - 8 - unat (mem u (nf - 8 + 4) AND SIZE_MASK) - 8} u t"
    using myfree_remainder [OF fr'] by blast
  have ce: "nf + unat (mem u (q + R)) = q + R + D"
    "q + R - unat (mem u (q + R + 4) AND SIZE_MASK) - 8 = q - 8"
    using uX D24 by (simp_all add: mu rm nf_def R_def [symmetric])
  note ct' = ct [unfolded e, unfolded ce]
  have "only_cells ?W s t"
    using only_cells_trans [OF su ct'] by (rule only_cells_mono) auto
  moreover have "mem t (q - 8) AND SIZE_MASK = r32"
    using ss muq rm by (simp add: same_sizes_def)
  ultimately show ?thesis using ins by (auto simp: nf_def R_def D_def)
qed

lemma mask_and_not [simp]:
  "(v AND NOT NEXT_FREE) AND SIZE_MASK = v AND SIZE_MASK"
  "(v AND NOT PREV_FREE) AND SIZE_MASK = v AND SIZE_MASK"
  by (simp_all add: SIZE_MASK_def NEXT_FREE_def PREV_FREE_def and.assoc)

lemma coalesce_unflagged:
  assumes "coalesce s p = Inr (s', r)"
    "mem s (p - 8) AND PREV_FREE = 0" "mem s (p - 8) AND NEXT_FREE = 0"
  shows "s' = s \<and> r = p"
  using assms by (auto simp: coalesce_def flag_reads elim!: bndE)

lemma garbage_header:
  assumes "unat (rem :: u32) < 24" "4 dvd unat rem"
  shows "(ucast ((ucast rem :: size_t) - of_nat HDR) OR FREE_MASK) AND PREV_FREE = 0 \<and>
         (ucast ((ucast rem :: size_t) - of_nat HDR) OR FREE_MASK) AND NEXT_FREE = (0 :: u32)"
proof -
  from assms have "unat rem = 0 \<or> unat rem = 4 \<or> unat rem = 8 \<or> unat rem = 12 \<or>
    unat rem = 16 \<or> unat rem = 20" by presburger
  then have "rem = 0 \<or> rem = 4 \<or> rem = 8 \<or> rem = 12 \<or> rem = 16 \<or> rem = 20"
    by (auto simp: word_unat_eq_iff)
  then show ?thesis
    by (elim disjE) (simp_all add: HDR_def FREE_MASK_def PREV_FREE_def NEXT_FREE_def)
qed

lemma malloc_garbage_effect:
  assumes mg: "malloc_garbage s q req rem = Inr s'"
    and hq: "mem s (q - 8) = r32" and rm: "r32 AND SIZE_MASK = r32" and rq: "ucast req = r32"
    and q8: "8 \<le> q"
    and d: "unat rem < 24" "4 dvd unat rem"
  shows "only_cells UNIV s s' \<and> mem s' (q - 8) AND SIZE_MASK = r32"
proof -
  define R where "R = unat r32"
  define nf where "nf = q + R + 8"
  define Y :: u32 where "Y = ucast ((ucast rem :: size_t) - of_nat HDR) OR FREE_MASK"
  have Yf: "Y AND PREV_FREE = 0" "Y AND NEXT_FREE = 0"
    using garbage_header [OF d] by (simp_all add: Y_def)
  have gn: "get_next s q = Inr h \<Longrightarrow> payload_for_hdr h = nf" for h
    by (simp add: get_next_Inr hq rm payload_for_hdr_def HDR_def nf_def R_def)
  from mg [unfolded malloc_garbage_def Let_def rq]
  obtain h s1 s2 s5 s6 c where h: "get_next s q = Inr h"
    and w1: "set_payload_size s (payload_for_hdr h)
               (ucast ((ucast rem :: size_t) - of_nat HDR) OR FREE_MASK) = Inr s1"
    and w2: "set_prevpayload_size s1 (payload_for_hdr h) r32 = Inr s2"
    and w3: "(if payload_for_hdr h > max_block s2 then Inr (s2\<lparr>max_block := payload_for_hdr h\<rparr>)
          else if payload_for_hdr h < max_block s2 then
            bnd (get_next s2 (payload_for_hdr h)) (\<lambda>h2.
            bnd (get_size s2 (payload_for_hdr h)) (\<lambda>nsz.
            bnd (set_prevpayload_size s2 (payload_for_hdr h2) nsz) (\<lambda>s3.
            bnd (set_prevfree s3 (payload_for_hdr h)) (\<lambda>s4.
            bnd (get_next s4 (payload_for_hdr h)) (\<lambda>h3.
            bnd (is_free s4 (payload_for_hdr h3)) (\<lambda>f.
            if f then bnd (get_size s4 (payload_for_hdr h)) (\<lambda>nsz2.
                      set_payload_size s4 (payload_for_hdr h) (nsz2 OR NEXT_FREE))
            else Inr s4))))))
          else Inr s2) = Inr s5"
    and w4: "(if payload_for_hdr h > min_block s5 then set_nextfree s5 (payload_for_hdr h)
              else Inr s5) = Inr s6"
    and w5: "coalesce s6 (payload_for_hdr h) = Inr c"
    and fin: "(case c of (s7, r) \<Rightarrow> Inr s7) = (Inr s' :: stop + heap)"
    by (elim bndE) (rule that)
  note w1 = w1 [unfolded gn [OF h], folded Y_def] and w2 = w2 [unfolded gn [OF h]]
    and w3 = w3 [unfolded gn [OF h]] and w4 = w4 [unfolded gn [OF h]]
    and w5 = w5 [unfolded gn [OF h]]
  have e: "nf - 8 = q + R" "nf - 8 + 4 = q + R + 4" by (simp_all add: nf_def)
  have c1: "only_cells {q + R} s s1" using set_payload_size_cells [OF w1] by (simp add: e)
  have c2: "only_cells {q + R + 4} s1 s2" using set_prevpayload_size_cells [OF w2] by (simp add: e)
  have m2: "mem s2 (q + R) = Y" "mem s2 (q + R + 4) = r32"
    using w1 w2 by (auto simp: set_payload_size_Inr set_prevpayload_size_Inr e)
  have c3: "only_cells {a. nf \<le> a} s2 s5"
  proof (cases "nf > max_block s2")
    case True
    with w3 show ?thesis by auto
  next
    case False
    show ?thesis
    proof (cases "nf < max_block s2")
      case f2: False
      with False w3 show ?thesis by simp
    next
      case True
      with False w3 obtain h2 nsz s3 s4 where h2: "get_next s2 nf = Inr h2"
        and w: "set_prevpayload_size s2 (payload_for_hdr h2) nsz = Inr s3"
        and pf: "set_prevfree s3 nf = Inr s4"
        and "s5 = s4"
        by (auto simp: flag_reads elim!: bndE)
      have "nf \<le> h2" using h2 by (simp add: get_next_Inr)
      then have a: "only_cells {a. nf \<le> a} s2 s3"
        using set_prevpayload_size_cells [OF w]
        by (auto simp: payload_for_hdr_def HDR_def intro: only_cells_mono)
      have b: "only_cells {a. nf \<le> a} s3 s4"
        using set_prevfree_cells [OF pf] by (auto intro: only_cells_mono)
      from only_cells_trans [OF a b] \<open>s5 = s4\<close> show ?thesis by simp
    qed
  qed
  have n5: "q + R \<notin> {a. nf \<le> a}" "q + R + 4 \<notin> {a. nf \<le> a}" "q - 8 \<notin> {a. nf \<le> a}"
    by (simp_all add: nf_def)
  have m5: "mem s5 (q + R) = Y" "mem s5 (q + R + 4) = r32"
    using only_cells_mem [OF c3 n5(1)] only_cells_mem [OF c3 n5(2)] m2 by simp_all
  have "q - 8 \<noteq> q + R" "q - 8 \<noteq> q + R + 4" using q8 by simp_all
  then have "mem s2 (q - 8) = r32"
    using only_cells_mem [OF c1, of "q - 8"] only_cells_mem [OF c2, of "q - 8"] hq by simp
  then have q5: "mem s5 (q - 8) = r32" using only_cells_mem [OF c3 n5(3)] by simp
  have c4: "only_cells {q - 8} s5 s6 \<and> same_sizes s5 s6"
  proof (cases "nf > min_block s5")
    case False
    with w4 show ?thesis by simp
  next
    case True
    with w4 have nfr: "set_nextfree s5 nf = Inr s6" by simp
    have "nf - 8 - unat (mem s5 (nf - 8 + 4) AND SIZE_MASK) - 8 = q - 8"
      by (simp add: e m5 rm R_def [symmetric])
    with set_nextfree_cells [OF nfr] set_nextfree_sizes [OF nfr] show ?thesis by simp
  qed
  have "q + R \<noteq> q - 8" using q8 by simp
  then have "mem s6 (nf - 8) = Y" using c4 only_cells_mem [of "{q - 8}" s5 s6 "q + R"] m5
    by (simp add: e)
  with Yf have "mem s6 (nf - 8) AND PREV_FREE = 0" "mem s6 (nf - 8) AND NEXT_FREE = 0"
    by simp_all
  moreover obtain s7 r where c: "c = (s7, r)" by (cases c)
  ultimately have "s7 = s6" using coalesce_unflagged [OF w5 [unfolded c]] by simp
  with fin c have s': "s' = s6" by simp
  have "mem s6 (q - 8) AND SIZE_MASK = r32"
    using c4 q5 rm by (simp add: same_sizes_def)
  moreover have "only_cells UNIV s s6"
    using only_cells_trans [OF only_cells_trans [OF only_cells_trans [OF c1 c2] c3]
        conjunct1 [OF c4]]
    by (rule only_cells_mono) simp
  ultimately show ?thesis by (simp add: s')
qed

lemma malloc_perfect_effect:
  assumes mp: "malloc_perfect s q = Inr s'"
    and hq: "mem s (q - 8) = r32" and q8: "8 \<le> q"
  shows "only_cells UNIV s s' \<and> mem s' (q - 8) = r32"
proof (cases "q < max_block s")
  case False
  with mp hq show ?thesis by (simp add: malloc_perfect_def)
next
  case True
  with mp obtain v where "wr32 s (q + unat r32) v = Inr s'"
    by (auto simp: malloc_perfect_def Let_def get_payloadsz_Inr hq elim!: bndE)
  from wr32_cells [OF this] have c: "only_cells {q + unat r32} s s'" .
  have "q - 8 \<notin> {q + unat r32}" using q8 by simp
  from only_cells_mem [OF c this] hq c show ?thesis
    by (auto intro: only_cells_mono)
qed

subsection \<open>A request served from new pages\<close>

lemma unat_page_mask: "unat ((x :: size_t) AND NOT 4095) = unat x div 4096 * 4096"
proof -
  have m: "(4095 :: size_t) = mask 12" by (simp add: mask_eq_exp_minus_1)
  have "unat (push_bit 12 (drop_bit 12 x)) = take_bit 64 (push_bit 12 (drop_bit 12 (unat x)))"
    by (simp add: unsigned_push_bit_eq unat_drop_bit_eq)
  also have "push_bit 12 (drop_bit 12 (unat x)) = unat x div 4096 * 4096"
    by (simp add: push_bit_eq_mult drop_bit_eq_div)
  also have "take_bit 64 (unat x div 4096 * 4096) = unat x div 4096 * 4096"
  proof -
    have "unat x div 4096 * 4096 \<le> unat x" by simp
    also have "unat x < 2 ^ 64" using unsigned_less [of x] by simp
    finally show ?thesis by (simp add: take_bit_nat_eq_self)
  qed
  finally show ?thesis unfolding m and_not_mask_push .
qed

lemma unat_page_mask': "unat ((x :: size_t) AND - 4096) = unat x div 4096 * 4096"
proof -
  have "(- 4096 :: size_t) = NOT 4095" by simp
  then show ?thesis by (simp only: unat_page_mask)
qed

lemma scast_small:
  assumes "unat (x :: u32) < 2 ^ 31"
  shows "unat (scast x :: size_t) = unat x"
proof -
  have "(scast x :: size_t) = word_of_int (int (unat x))"
    by (simp add: scast_eq sint_small [OF assms])
  then have "(scast x :: size_t) = ucast x" by simp
  then show ?thesis by (simp add: unat_ucast_up)
qed

lemma new_page_arith:
  fixes req :: size_t
  assumes r: "unat req \<le> 0x7ffffff8"
  defines "npages \<equiv> roundup (req + of_nat HDR) (of_nat PAGE_SIZE) div of_nat PAGE_SIZE"
  shows "unat (npages * of_nat PAGE_SIZE - req - of_nat HDR) + unat req + 8 = unat npages * 4096"
    and "unat (npages * of_nat PAGE_SIZE - req - of_nat HDR) < 4096"
proof -
  define y where "y = req + 4103"
  have small: "unat req + 4103 < 2 ^ 64" using r by simp
  have uy: "unat y = unat req + 4103"
    unfolding y_def using small by (subst unat_add_lem [THEN iffD1]) simp_all
  have np: "npages = (y AND - 4096) div 4096"
    by (simp add: npages_def roundup_def HDR_def PAGE_SIZE_def y_def add.commute)
  define N where "N = (unat req + 4103) div 4096"
  have un: "unat npages = N"
    unfolding np unat_div unat_page_mask' uy N_def by simp
  have le: "N * 4096 \<le> unat req + 4103" by (simp add: N_def)
  have ge: "unat req + 8 \<le> N * 4096"
  proof -
    define a where "a = unat req + 4103"
    define m where "m = a mod 4096"
    have "m < 4096" by (simp add: m_def)
    moreover have "a = N * 4096 + m" by (simp add: N_def a_def m_def)
    ultimately have "a < N * 4096 + 4096" by simp
    then show ?thesis by (simp add: a_def)
  qed
  have um: "unat (npages * 4096) = N * 4096"
  proof -
    have "unat npages * unat (4096 :: size_t) < 2 ^ LENGTH(64)" using le small un by simp
    then have "unat (npages * 4096) = unat npages * unat (4096 :: size_t)"
      by (rule unat_mult_lem [THEN iffD1])
    then show ?thesis by (simp add: un)
  qed
  have s1: "unat (npages * 4096 - req) = N * 4096 - unat req"
    using ge um by (simp add: unat_sub word_le_nat_alt)
  have s2: "unat (npages * 4096 - req - 8) = N * 4096 - unat req - 8"
  proof -
    have "(8 :: size_t) \<le> npages * 4096 - req" using ge s1 by (simp add: word_le_nat_alt)
    then show ?thesis using s1 by (simp add: unat_sub)
  qed
  show "unat (npages * of_nat PAGE_SIZE - req - of_nat HDR) + unat req + 8 = unat npages * 4096"
    using s2 ge by (simp add: HDR_def PAGE_SIZE_def un)
  have "N * 4096 \<le> unat req + 4103" by (rule le)
  then show "unat (npages * of_nat PAGE_SIZE - req - of_nat HDR) < 4096"
    using s2 by (simp add: HDR_def PAGE_SIZE_def)
qed

lemma sub_hdr64:
  assumes "8 \<le> unat (y :: size_t)" "unat y < 2 ^ 32"
  shows "unat (ucast (y - of_nat HDR) :: u32) = unat y - 8"
proof -
  have "(8 :: size_t) \<le> y" using assms(1) by (simp add: word_le_nat_alt)
  then have "unat (y - 8) = unat y - 8" by (simp add: unat_sub)
  moreover have "unat y - 8 < 2 ^ 32" using assms(2) by simp
  ultimately show ?thesis by (simp add: HDR_def unat_ucast_down)
qed

lemma request_fits:
  fixes req :: size_t
  assumes "unat req \<le> 0x7ffffff8" "8 dvd unat req"
  shows "unat (ucast req :: u32) = unat req" "(ucast req :: u32) AND SIZE_MASK = ucast req"
proof -
  show u: "unat (ucast req :: u32) = unat req" using assms(1) by (intro unat_ucast_down) simp
  show "(ucast req :: u32) AND SIZE_MASK = ucast req"
  proof (rule masked_id)
    show "4 dvd unat (ucast req :: u32)" using assms(2) u by (simp add: dvd_def) presburger
    show "unat (ucast req :: u32) < 2 ^ 31" using assms(1) u by simp
  qed
qed

lemma only_links_mem:
  "only_links ms s s' \<Longrightarrow> \<forall>m \<in> ms. a \<notin> link_cells m \<Longrightarrow> mem s' a = mem s a"
  unfolding only_links_def by blast

lemma only_links_mapped: "only_links ms s s' \<Longrightarrow> mapped s' a = mapped s a"
  unfolding only_links_def by (simp add: mapped_def)

lemma same_sizes_mapped: "same_sizes s s' \<Longrightarrow> mapped s' a = mapped s a"
  unfolding same_sizes_def by (simp add: mapped_def)

lemma closed_transfer:
  assumes "closed s ns" "buckets t = buckets s"
    "\<And>m. m \<in> ns \<Longrightarrow> mem t m = mem s m \<and> mem t (m + 4) = mem s (m + 4)"
  shows "closed t ns"
  using assms unfolding closed_def by (simp add: ptr_at_def)

lemma ok_closed: "free_lists_ok s ns \<Longrightarrow> closed s ns"
  by (simp add: free_lists_ok_def closed_def)

lemma get_new_page_effect:
  assumes ok: "free_lists_ok s ns"
    and gp: "get_new_page fuel s req = Inr (s', p)"
    and r: "unat req \<le> 0x7ffffff8" "16 \<le> unat req" "8 dvd unat req"
  shows "8 dvd p \<and> mapped s' (p - 8) \<and> mem s' (p - 8) AND SIZE_MASK = ucast req"
proof -
  let ?np = "roundup (req + of_nat HDR) (of_nat PAGE_SIZE) div of_nat PAGE_SIZE"
  let ?sl = "ucast (?np * of_nat PAGE_SIZE - req - of_nat HDR) :: u32"
  define r32 :: u32 where "r32 = ucast req"
  define R where "R = unat req"
  define E where "E = seg_base s + PAGE_SIZE * seg_pages s"
  define L where "L = unat (?np * of_nat PAGE_SIZE - req - of_nat HDR)"
  have uR: "unat r32 = R" and rm: "r32 AND SIZE_MASK = r32"
    using request_fits [OF r(1,3)] by (simp_all add: r32_def R_def)
  have L4096: "L < 4096" and Leq: "L + R + 8 = unat ?np * 4096"
    using new_page_arith [OF r(1)] by (simp_all add: L_def R_def)
  have usl: "unat ?sl = L" unfolding L_def [symmetric]
    using L4096 by (simp add: L_def unat_ucast_down)
  have base: "0 < seg_base s" "8 dvd seg_base s" using ok by (simp_all add: free_lists_ok_def)
  obtain s0 header where ex: "extend_heap_segment s (unat ?np) = (s0, header)"
    by (cases "extend_heap_segment s (unat ?np)")
  let ?page = "payload_for_hdr header"
  from gp [unfolded get_new_page_def Let_def ex prod.case]
  obtain s1 msz s2 msz2 s3 where
    w1: "set_payload_size s0 ?page (ucast req) = Inr s1"
    and g1: "get_size s1 (max_block s1) = Inr msz"
    and w2: "set_prevpayload_size s1 ?page msz = Inr s2"
    and g2: "get_size s2 (max_block s2) = Inr msz2"
    and w3: "(if msz2 AND FREE_MASK \<noteq> 0 then set_prevfree s2 ?page else Inr s2) = Inr s3"
    and rest: "(if ?sl = 0 then Inr (s3\<lparr>max_block := ?page\<rparr>, ?page)
      else if (scast ?sl :: size_t) < of_nat (HDR + 2 * PTR) then
        bnd (get_next s3 ?page) (\<lambda>h.
        bnd (set_payload_size s3 (payload_for_hdr h)
               (ucast (?np * of_nat PAGE_SIZE - req - 2 * of_nat HDR) OR FREE_MASK)) (\<lambda>s4.
        bnd (set_prevpayload_size s4 (payload_for_hdr h) (ucast req)) (\<lambda>s5.
        bnd (set_nextfree s5 (payload_for_hdr h)) (\<lambda>s6.
        Inr (s6\<lparr>max_block := payload_for_hdr h\<rparr>, ?page)))))
      else
        bnd (get_next s3 ?page) (\<lambda>h.
        bnd (set_payload_size s3 (payload_for_hdr h)
               (ucast ((scast ?sl :: size_t) - of_nat HDR))) (\<lambda>s4.
        bnd (set_prevpayload_size s4 (payload_for_hdr h) (ucast req)) (\<lambda>s5.
        bnd (myfree fuel s5 (payload_for_hdr h)) (\<lambda>s6.
        Inr (s6\<lparr>max_block := payload_for_hdr h\<rparr>, ?page)))))) = Inr (s', p)"
    by (elim bndE) (rule that)
  have hd: "header = E \<and> mem s0 = mem s \<and> buckets s0 = buckets s \<and> seg_base s0 = seg_base s"
  proof (cases "seg_pages s + unat ?np \<le> seg_limit s")
    case True
    with ex show ?thesis by (auto simp: extend_heap_segment_def E_def)
  next
    case False
    with ex have "s0 = s" "header = 0" by (auto simp: extend_heap_segment_def)
    with w1 have "mapped s 0"
      by (simp add: set_payload_size_Inr payload_for_hdr_def HDR_def)
    with base(1) show ?thesis by (simp add: mapped_def)
  qed
  have pg: "?page = E + 8" using hd by (simp add: payload_for_hdr_def HDR_def)
  have e0: "E + 8 - 8 = E" "E + 8 - 8 + 4 = E + 4" by simp_all
  have al: "8 dvd E + 8" using base(2) by (simp add: E_def PAGE_SIZE_def)
  note w1 = w1 [unfolded pg, folded r32_def] and w2 = w2 [unfolded pg]
  have "msz2 AND FREE_MASK = 0" using g2 by (auto simp: get_size_Inr)
  with w3 have s3: "s3 = s2" by simp
  have mp0: "mapped s0 E" using w1 by (simp add: set_payload_size_Inr)
  have c03: "only_cells {E, E + 4} s0 s3"
    using only_cells_trans [OF set_payload_size_cells [OF w1] set_prevpayload_size_cells [OF w2]]
    unfolding s3 e0 by (rule only_cells_mono) auto
  have m3: "mem s3 E = r32"
    using w1 w2 by (auto simp: set_payload_size_Inr set_prevpayload_size_Inr s3)
  have gn: "get_next s3 (E + 8) = Inr h \<Longrightarrow> payload_for_hdr h = E + R + 16" for h
    by (simp add: get_next_Inr m3 rm uR payload_for_hdr_def HDR_def)
  have e1: "E + R + 16 - 8 = E + R + 8" "E + R + 16 - 8 + 4 = E + R + 12" by simp_all
  show ?thesis
  proof (cases "?sl = 0")
    case True
    with rest have "s' = s3\<lparr>max_block := E + 8\<rparr>" "p = E + 8" by (auto simp: pg)
    with m3 rm al mp0 only_cells_mapped [OF c03, of E] show ?thesis
      by (simp add: r32_def)
  next
    case nz: False
    show ?thesis
    proof (cases "(scast ?sl :: size_t) < of_nat (HDR + 2 * PTR)")
      case True
      with nz rest [unfolded pg] obtain h s4 s5 s6 where h: "get_next s3 (E + 8) = Inr h"
        and a: "set_payload_size s3 (payload_for_hdr h)
               (ucast (?np * of_nat PAGE_SIZE - req - 2 * of_nat HDR) OR FREE_MASK) = Inr s4"
        and b: "set_prevpayload_size s4 (payload_for_hdr h) (ucast req) = Inr s5"
        and c: "set_nextfree s5 (payload_for_hdr h) = Inr s6"
        and fin: "s' = s6\<lparr>max_block := payload_for_hdr h\<rparr>" "p = E + 8"
        by (auto elim!: bndE)
      have c35: "only_cells {E + R + 8, E + R + 12} s3 s5"
        using only_cells_trans [OF set_payload_size_cells [OF a] set_prevpayload_size_cells [OF b]]
        unfolding gn [OF h] e1 by (rule only_cells_mono) auto
      have "E \<notin> {E + R + 8, E + R + 12}" by simp
      then have m5: "mem s5 E = r32" using only_cells_mem [OF c35] m3 by simp
      have ss: "same_sizes s5 s6" using c by (rule set_nextfree_sizes)
      have "mem s6 E AND SIZE_MASK = r32" using ss m5 rm by (simp add: same_sizes_def)
      moreover have "mapped s6 E"
        using mp0 only_cells_mapped [OF c03, of E] only_cells_mapped [OF c35, of E]
          same_sizes_mapped [OF ss, of E] by simp
      ultimately show ?thesis using fin al by (simp add: r32_def)
    next
      case False
      with nz rest [unfolded pg] obtain h s4 s5 s6 where h: "get_next s3 (E + 8) = Inr h"
        and a: "set_payload_size s3 (payload_for_hdr h)
               (ucast ((scast ?sl :: size_t) - of_nat HDR)) = Inr s4"
        and b: "set_prevpayload_size s4 (payload_for_hdr h) (ucast req) = Inr s5"
        and c: "myfree fuel s5 (payload_for_hdr h) = Inr s6"
        and fin: "s' = s6\<lparr>max_block := payload_for_hdr h\<rparr>" "p = E + 8"
        by (auto elim!: bndE)
      define X :: u32 where "X = ucast ((scast ?sl :: size_t) - of_nat HDR)"
      note a = a [unfolded gn [OF h], folded X_def] and b = b [unfolded gn [OF h], folded r32_def]
        and c = c [unfolded gn [OF h]]
      have sc: "unat (scast ?sl :: size_t) = L"
        using scast_small [of ?sl] usl L4096 by simp
      have L24: "24 \<le> L" using False sc by (simp add: word_less_nat_alt HDR_def PTR_def)
      have uX: "unat X = L - 8" unfolding X_def
        using sub_hdr64 [of "scast ?sl"] sc L24 L4096 by simp
      have "4 dvd L - 8"
      proof -
        define N where "N = unat ?np"
        from r(3) obtain k where k: "R = 8 * k" by (auto simp: R_def dvd_def)
        have "L + 8 * k + 8 = N * 4096" using Leq by (simp add: k N_def)
        then have "L = 4 * (N * 1024 - 2 * k - 2)" by arith
        then have "4 dvd L" by (metis dvd_triv_left)
        then show ?thesis by (simp add: dvd_diff_nat)
      qed
      then have Xm: "X AND SIZE_MASK = X" using uX L4096 by (intro masked_id) simp_all
      have c35: "only_cells {E + R + 8, E + R + 12} s3 s5"
        using only_cells_trans [OF set_payload_size_cells [OF a] set_prevpayload_size_cells [OF b]]
        unfolding e1 by (rule only_cells_mono) auto
      have m5: "mem s5 (E + R + 8) = X" "mem s5 (E + R + 12) = r32"
        using a b by (auto simp: set_payload_size_Inr set_prevpayload_size_Inr e1)
      have "E \<notin> {E + R + 8, E + R + 12}" by simp
      then have m5E: "mem s5 E = r32" using only_cells_mem [OF c35] m3 by simp
      have "mem s5 (E + R + 16 - 8) AND SIZE_MASK = mem s5 (E + R + 16 - 8)"
        by (simp add: e1 m5 Xm)
      moreover have "16 \<le> E + R + 16" by simp
      ultimately obtain t where ins: "free_insert fuel t (E + R + 16) = Inr s6"
        and ss: "same_sizes s5 t"
        and ct: "only_cells {E + R + 16 - 8, E + R + 16 + unat (mem s5 (E + R + 16 - 8)),
                 E + R + 16 - 8 - unat (mem s5 (E + R + 16 - 8 + 4) AND SIZE_MASK) - 8} s5 t"
        using myfree_remainder [OF c] by blast
      have e2: "E + R + 8 + 4 = E + R + 12" "E + R + 8 - R - 8 = E" by simp_all
      note ct' = ct [unfolded e1(1), unfolded e2(1), unfolded m5 rm uR uX, unfolded e2(2)]
      have ge: "\<forall>a. mem t a \<noteq> mem s a \<longrightarrow> E \<le> a"
      proof (intro allI impI)
        fix a
        assume d: "mem t a \<noteq> mem s a"
        show "E \<le> a"
        proof (rule ccontr)
          assume "\<not> E \<le> a"
          then have lt: "a < E" by simp
          then have "a \<notin> {E, E + 4}" "a \<notin> {E + R + 8, E + R + 12}" by simp_all
          then have 1: "mem s5 a = mem s a"
            using only_cells_mem [OF c03] only_cells_mem [OF c35] hd by simp
          have "a \<notin> {E + R + 8, E + R + 16 + (L - 8), E}"
            using lt by simp
          from only_cells_mem [OF ct' this] 1 d show False by simp
        qed
      qed
      have bt: "buckets t = buckets s"
        using ss c35 c03 hd by (simp add: same_sizes_def only_cells_def)
      have cl: "closed t ns"
      proof (rule closed_transfer [OF ok_closed [OF ok] bt])
        fix m
        assume "m \<in> ns"
        from ok_node(3) [OF ok this] have "m < E" "m + 4 < E" by (simp_all add: E_def)
        with ge show "mem t m = mem s m \<and> mem t (m + 4) = mem s (m + 4)"
          by (metis not_le)
      qed
      have ol: "only_links (insert (E + R + 16) ns) t s6"
        using free_insert_links_only [OF cl ins] .
      have "\<forall>m \<in> insert (E + R + 16) ns. E \<notin> link_cells m"
      proof
        fix m
        assume "m \<in> insert (E + R + 16) ns"
        then have "m = E + R + 16 \<or> m + 16 \<le> E"
          using ok_node(3) [OF ok, of m] by (auto simp: E_def)
        then show "E \<notin> link_cells m" by (auto simp: link_cells_def)
      qed
      from only_links_mem [OF ol this] have "mem s6 E = mem t E" .
      moreover have "mem t E AND SIZE_MASK = r32" using ss m5E rm by (simp add: same_sizes_def)
      moreover have "mapped s6 E"
        using mp0 only_cells_mapped [OF c03, of E] only_cells_mapped [OF c35, of E]
          same_sizes_mapped [OF ss, of E] only_links_mapped [OF ol, of E] by simp
      ultimately show ?thesis using fin al by (simp add: r32_def)
    qed
  qed
qed

subsection \<open>alloc\<close>

lemma request_size:
  fixes n :: size_t
  assumes "unat n \<le> 0x7ffffff8"
  defines "req \<equiv> (if roundup n ALIGNMENT < 16 then 16 else roundup n ALIGNMENT)"
  shows "unat req = max 16 ((unat n + 7) div 8 * 8)" "unat req \<le> 0x7ffffff8"
    "16 \<le> unat req" "8 dvd unat req"
proof -
  have "unat n + 7 < 2 ^ 64" using assms(1) by simp
  then have u: "unat (roundup n ALIGNMENT) = (unat n + 7) div 8 * 8" by (rule roundup8_unat)
  show 1: "unat req = max 16 ((unat n + 7) div 8 * 8)"
    using u by (simp add: req_def word_less_nat_alt max_def)
  have "(unat n + 7) div 8 \<le> 0x7fffffff div 8"
    using assms(1) by (intro div_le_mono) simp
  then have "(unat n + 7) div 8 * 8 \<le> 0x7ffffff8" by simp
  with 1 show "unat req \<le> 0x7ffffff8" by simp
  from 1 show "16 \<le> unat req" by simp
  from 1 show "8 dvd unat req" by (simp add: max_def)
qed

lemma malloc_tail_prev:
  assumes "(if q > min_block s3
            then bnd (get_prev s3 q) (\<lambda>prev.
                 bnd (get_payloadsz s3 prev) (\<lambda>v.
                 bnd (set_payload_size s3 prev (v AND NOT NEXT_FREE)) (\<lambda>s4.
                 bnd (is_free s4 prev) (\<lambda>f.
                 if f then set_prevfree s4 prev else Inr s4))))
            else Inr s3) = Inr s5"
  shows "same_sizes s3 s5"
  using assms
  by (auto simp: get_payloadsz_Inr set_payload_size_Inr flag_reads same_sizes_def
      elim!: bndE split: if_splits)

lemma malloc_tail_next:
  assumes "(if q < max_block s5
            then bnd (get_next s5 q) (\<lambda>h.
                 bnd (is_free s5 (payload_for_hdr h)) (\<lambda>f.
                 if f then set_nextfree s5 (payload_for_hdr h) else Inr s5))
            else Inr s5) = Inr s6"
  shows "s6 = s5"
  using assms
  by (auto simp: flag_reads elim!: bndE split: if_splits)

lemma found_block_effect:
  assumes ok: "free_lists_ok s ns" and q: "q \<in> ns"
    and rl: "remove_from_list s q i = Inr s1"
    and sz: "get_size s q = Inr sz0" and fit: "req \<le> ucast sz0"
    and r: "unat req \<le> 0x7ffffff8" "16 \<le> unat req" "8 dvd unat req"
    and gt: "get_size s1 q = Inr tmp"
    and w: "set_payload_size s1 q (ucast req) = Inr s2"
    and br: "(if unat (ucast ((ucast tmp :: size_t) - req) :: u32) \<ge> HDR + 2 * PTR
               then malloc_split fuel s2 q req (ucast ((ucast tmp :: size_t) - req))
               else if req \<noteq> ucast tmp
               then malloc_garbage s2 q req (ucast ((ucast tmp :: size_t) - req))
               else malloc_perfect s2 q) = Inr s3"
  shows "mapped s3 (q - 8) \<and> mem s3 (q - 8) AND SIZE_MASK = ucast req"
proof -
  define r32 :: u32 where "r32 = ucast req"
  define R where "R = unat req"
  define T where "T = unat (mem s (q - 8) AND SIZE_MASK)"
  define rem :: u32 where "rem = ucast ((ucast tmp :: size_t) - req)"
  have uR: "unat r32 = R" and rm: "r32 AND SIZE_MASK = r32"
    using request_fits [OF r(1,3)] by (simp_all add: r32_def R_def)
  have R16: "16 \<le> R" using r(2) by (simp add: R_def)
  have q8: "8 \<le> q" using ok_node(2) [OF ok q] by simp
  have cl1: "closed s1 ns" and ol1: "only_links ns s s1"
    using remove_from_list_closed [OF ok q rl] by simp_all
  have away: "x + 4 \<le> q - 8 \<or> q + T + 8 \<le> x" if "m \<in> ns" "m \<noteq> q" "x \<in> link_cells m" for m x
    using ok_region [OF ok q that(1,2)] that(3) by (auto simp: link_cells_def T_def)
  have hdr_free: "\<forall>m \<in> ns. q - 8 \<notin> link_cells m"
  proof
    fix m
    assume m: "m \<in> ns"
    show "q - 8 \<notin> link_cells m"
    proof (cases "m = q")
      case True
      with q8 show ?thesis by (auto simp: link_cells_def)
    next
      case False
      with away [OF m] show ?thesis by fastforce
    qed
  qed
  have h1: "mem s1 (q - 8) = mem s (q - 8)" using only_links_mem [OF ol1 hdr_free] .
  have sz0: "sz0 = mem s (q - 8) AND SIZE_MASK" using sz by (simp add: get_size_Inr)
  have tmp: "tmp = sz0" using gt h1 sz0 by (simp add: get_size_Inr)
  have uT: "unat tmp = T" by (simp add: tmp sz0 T_def)
  have T31: "T \<le> 0x7ffffffc" unfolding T_def by (rule size_le)
  have T4: "4 dvd T" unfolding T_def by (rule size_dvd4)
  have RT: "R \<le> T"
    using fit uT by (simp add: word_le_nat_alt unat_ucast_up tmp R_def)
  have urem: "unat rem = T - R"
  proof -
    have "unat ((ucast tmp :: size_t) - req) = T - R"
      using fit uT by (simp add: unat_sub unat_ucast_up tmp R_def)
    moreover have "T - R < 2 ^ 32" using T31 by simp
    ultimately show ?thesis by (simp add: rem_def unat_ucast_down)
  qed
  have D4: "4 dvd unat rem"
  proof -
    from r(3) have "4 dvd R" by (auto simp: R_def dvd_def)
    with T4 show ?thesis by (simp add: urem dvd_diff_nat)
  qed
  have mp1: "mapped s1 (q - 8)" and s2: "s2 = s1\<lparr>mem := (mem s1)(q - 8 := r32)\<rparr>"
    using w by (simp_all add: set_payload_size_Inr r32_def)
  have hq: "mem s2 (q - 8) = r32" by (simp add: s2)
  have c12: "only_cells {q - 8} s1 s2" by (simp add: s2 only_cells_def)
  have rq: "ucast req = r32" by (simp add: r32_def)
  note br = br [folded rem_def]
  show ?thesis
  proof (cases "unat rem \<ge> HDR + 2 * PTR")
    case True
    with br have ms: "malloc_split fuel s2 q req rem = Inr s3" by simp
    have d: "24 \<le> unat rem" "unat rem < 2 ^ 31"
      using True T31 by (simp_all add: HDR_def PTR_def urem)
    from malloc_split_effect [OF ms hq rm rq q8 d D4]
    obtain t where ins: "free_insert fuel t (q + unat r32 + 8) = Inr s3"
      and ct: "only_cells {q - 8, q + unat r32, q + unat r32 + 4, q + unat r32 + unat rem,
                 q + unat r32 + unat rem + 4} s2 t"
      and mt: "mem t (q - 8) AND SIZE_MASK = r32"
      by blast
    have RD: "R + (T - R) = T" using RT by simp
    have ct': "only_cells {q - 8, q + R, q + R + 4, q + T, q + T + 4} s2 t"
      using ct RD by (simp add: uR urem add.assoc)
    have c1t: "only_cells {q - 8, q + R, q + R + 4, q + T, q + T + 4} s1 t"
      using only_cells_trans [OF c12 ct'] by (rule only_cells_mono) auto
    have cl: "closed t ns"
    proof (rule closed_transfer [OF cl1])
      show "buckets t = buckets s1" using c1t by (simp add: only_cells_def)
      fix m
      assume m: "m \<in> ns"
      have "m \<notin> {q - 8, q + R, q + R + 4, q + T, q + T + 4} \<and>
            m + 4 \<notin> {q - 8, q + R, q + R + 4, q + T, q + T + 4}"
      proof (cases "m = q")
        case True
        with q8 R16 RT show ?thesis by auto
      next
        case False
        have "m \<in> link_cells m" "m + 4 \<in> link_cells m" by (simp_all add: link_cells_def)
        with away [OF m False] have "m + 4 \<le> q - 8 \<or> q + T + 8 \<le> m"
          "m + 4 + 4 \<le> q - 8 \<or> q + T + 8 \<le> m + 4" by blast+
        with q8 RT show ?thesis by auto
      qed
      with only_cells_mem [OF c1t]
      show "mem t m = mem s1 m \<and> mem t (m + 4) = mem s1 (m + 4)" by blast
    qed
    have ol: "only_links (insert (q + unat r32 + 8) ns) t s3"
      using free_insert_links_only [OF cl ins] .
    have "\<forall>m \<in> insert (q + unat r32 + 8) ns. q - 8 \<notin> link_cells m"
      using hdr_free q8 by (auto simp: link_cells_def)
    from only_links_mem [OF ol this] have "mem s3 (q - 8) = mem t (q - 8)" .
    moreover have "mapped s3 (q - 8)"
      using mp1 only_cells_mapped [OF c1t, of "q - 8"] only_links_mapped [OF ol, of "q - 8"]
      by simp
    ultimately show ?thesis using mt by (simp add: r32_def)
  next
    case False
    then have d: "unat rem < 24" by (simp add: HDR_def PTR_def)
    have "only_cells UNIV s2 s3 \<and> mem s3 (q - 8) AND SIZE_MASK = r32"
    proof (cases "req \<noteq> ucast tmp")
      case True
      with False br have "malloc_garbage s2 q req rem = Inr s3" by simp
      from malloc_garbage_effect [OF this hq rm rq q8 d D4] show ?thesis .
    next
      case eq: False
      with False br have "malloc_perfect s2 q = Inr s3" by simp
      from malloc_perfect_effect [OF this hq q8] rm show ?thesis by simp
    qed
    moreover from this have "mapped s3 (q - 8)"
      using mp1 only_cells_mapped [OF c12, of "q - 8"]
        only_cells_mapped [of UNIV s2 s3 "q - 8"] by simp
    ultimately show ?thesis by (simp add: r32_def)
  qed
qed

text \<open>
  When the free lists are closed over a set \<open>ns\<close> of nodes that lie in the segment at
  8-aligned addresses, in blocks that do not overlap, and the request \<open>n\<close> is not 0 and at
  most \<open>0x7ffffff8\<close>, so that rounded up to a multiple of 8 it fits the 31 bits of the size
  field, the payload that a returning \<open>mymalloc\<close> gives is a multiple of 8, and the size
  field of its block, masked, is \<open>max 16 (round_up n 8)\<close>: at least \<open>n\<close>, and exactly 16
  for \<open>n < 16\<close>. The runs below leave these two conditions.
\<close>

lemma alloc_size_on_closed_lists:
  assumes ok: "free_lists_ok s ns"
    and n: "n \<noteq> 0" "unat n \<le> 0x7ffffff8"
    and ret: "mymalloc fuel s n = Inr (s', p)"
  shows "8 dvd p \<and>
    (\<exists>sz. get_size s' p = Inr sz \<and> unat sz = max 16 ((unat n + 7) div 8 * 8) \<and>
       unat n \<le> unat sz \<and> (unat n < 16 \<longrightarrow> sz = 16))"
proof -
  define req where "req = (if roundup n ALIGNMENT < 16 then 16 else roundup n ALIGNMENT)"
  note rs = request_size [OF n(2), folded req_def]
  have u32: "unat (ucast req :: u32) = unat req" using request_fits [OF rs(2,4)] by simp
  have main: "8 dvd p \<and> mapped s' (p - 8) \<and> mem s' (p - 8) AND SIZE_MASK = ucast req"
  proof -
    from ret [unfolded mymalloc_def Let_def, folded req_def,
        unfolded eq_False [THEN iffD2, OF n(1)] if_False]
    obtain c where gfs: "get_free_space fuel s (cal_bucket (ucast req)) req = Inr c"
      and rest: "(case c of (s1, cur) \<Rightarrow>
        if cur = 0 then get_new_page fuel s1 req
        else
          bnd (get_size s1 cur) (\<lambda>tmp.
          bnd (set_payload_size s1 cur (ucast req)) (\<lambda>s2.
          bnd (if unat (ucast ((ucast tmp :: size_t) - req) :: u32) \<ge> HDR + 2 * PTR
               then malloc_split fuel s2 cur req (ucast ((ucast tmp :: size_t) - req))
               else if req \<noteq> ucast tmp
               then malloc_garbage s2 cur req (ucast ((ucast tmp :: size_t) - req))
               else malloc_perfect s2 cur) (\<lambda>s3.
          bnd (if cur > min_block s3
               then bnd (get_prev s3 cur) (\<lambda>prev.
                    bnd (get_payloadsz s3 prev) (\<lambda>v.
                    bnd (set_payload_size s3 prev (v AND NOT NEXT_FREE)) (\<lambda>s4.
                    bnd (is_free s4 prev) (\<lambda>f.
                    if f then set_prevfree s4 prev else Inr s4))))
               else Inr s3) (\<lambda>s5.
          bnd (if cur < max_block s5
               then bnd (get_next s5 cur) (\<lambda>h.
                    bnd (is_free s5 (payload_for_hdr h)) (\<lambda>f.
                    if f then set_nextfree s5 (payload_for_hdr h) else Inr s5))
               else Inr s5) (\<lambda>s6.
          Inr (s6, cur))))))) = Inr (s', p)"
      by (rule bndE)
    obtain s1 q where c: "c = (s1, q)" by (cases c)
    note gfs = gfs [unfolded c get_free_space_def] and rest = rest [unfolded c prod.case]
    show ?thesis
    proof (cases "q = 0")
      case True
      with scan_buckets_null gfs have "s1 = s" by blast
      with True rest have "get_new_page fuel s req = Inr (s', p)" by simp
      from get_new_page_effect [OF ok this rs(2,3,4)] show ?thesis .
    next
      case False
      from scan_buckets_found [OF ok gfs False]
      obtain i sz0 where q: "q \<in> ns" and rl: "remove_from_list s q i = Inr s1"
        and sz: "get_size s q = Inr sz0" and fit: "req \<le> ucast sz0"
        by blast
      from rest False obtain tmp s2 s3 s5 s6 where gt: "get_size s1 q = Inr tmp"
        and w: "set_payload_size s1 q (ucast req) = Inr s2"
        and br: "(if unat (ucast ((ucast tmp :: size_t) - req) :: u32) \<ge> HDR + 2 * PTR
               then malloc_split fuel s2 q req (ucast ((ucast tmp :: size_t) - req))
               else if req \<noteq> ucast tmp
               then malloc_garbage s2 q req (ucast ((ucast tmp :: size_t) - req))
               else malloc_perfect s2 q) = Inr s3"
        and t1: "(if q > min_block s3
               then bnd (get_prev s3 q) (\<lambda>prev.
                    bnd (get_payloadsz s3 prev) (\<lambda>v.
                    bnd (set_payload_size s3 prev (v AND NOT NEXT_FREE)) (\<lambda>s4.
                    bnd (is_free s4 prev) (\<lambda>f.
                    if f then set_prevfree s4 prev else Inr s4))))
               else Inr s3) = Inr s5"
        and t2: "(if q < max_block s5
               then bnd (get_next s5 q) (\<lambda>h.
                    bnd (is_free s5 (payload_for_hdr h)) (\<lambda>f.
                    if f then set_nextfree s5 (payload_for_hdr h) else Inr s5))
               else Inr s5) = Inr s6"
        and fin: "Inr (s6, q) = (Inr (s', p) :: stop + heap \<times> addr)"
        by (simp only: if_False) (elim bndE, rule that)
      from found_block_effect [OF ok q rl sz fit rs(2,3,4) gt w br]
      have e3: "mapped s3 (q - 8)" "mem s3 (q - 8) AND SIZE_MASK = ucast req" by simp_all
      have ss: "same_sizes s3 s5" using t1 by (rule malloc_tail_prev)
      have s6: "s6 = s5" using t2 by (rule malloc_tail_next)
      from fin s6 have f: "s' = s5" "p = q" by simp_all
      have "mem s5 (q - 8) AND SIZE_MASK = ucast req" using ss e3(2) by (simp add: same_sizes_def)
      moreover have "mapped s5 (q - 8)" using same_sizes_mapped [OF ss] e3(1) by simp
      ultimately show ?thesis using f ok_node(1) [OF ok q] by simp
    qed
  qed
  then have gs: "get_size s' p = Inr (ucast req)" by (simp add: get_size_Inr)
  have le: "unat n \<le> unat req"
    using roundup_mono [of n] rs(1) by simp
  have small: "unat n < 16 \<Longrightarrow> (ucast req :: u32) = 16"
  proof -
    assume "unat n < 16"
    then have "(unat n + 7) div 8 * 8 \<le> 16" by arith
    with rs(1) have "unat req = 16" by simp
    with u32 show ?thesis by (simp add: word_unat_eq_iff)
  qed
  from main gs rs(1) u32 le small show ?thesis by simp
qed

section \<open>The sorted insertion of free\<close>

text \<open>
  C4. \<open>myfree\<close> walks the bucket with \<open>prev\<close> starting at the head. When the head has the
  size of the block being freed the loop leaves at once, with \<open>prev = cur = head\<close>, and the
  four link updates then make the head and the new block point at each other: after
  \<open>free(a); free(c)\<close> of two 16-byte blocks, bucket 2 starts at \<open>a\<close>, the \<open>next\<close> of \<open>a\<close> is
  \<open>c\<close> and the \<open>next\<close> of \<open>c\<close> is \<open>a\<close> again. The list is a cycle, not a list that ends in
  NULL.
\<close>

theorem free_of_equal_size_ties_a_cycle:
  "trace_cycle = Inr (0x107000008, 0x107000038, 0x107000008, 0x107000038, 0x107000008)"
  unfolding trace_cycle_def
  by (simp add: eval_simps cong: bnd_cong_weak)

text \<open>Once bucket 2 is that cycle, a request that fits neither block walks it for ever:
  whatever the fuel, the search of \<open>get_free_space\<close> uses it up.\<close>

lemma scan_cycle:
  assumes "a \<noteq> 0" "c \<noteq> 0"
    and "get_size s a = Inr sa" "get_size s c = Inr sc"
    and "\<not> req \<le> ucast sa" "\<not> req \<le> ucast sc"
    and "get_next_in_list s a = Inr c" "get_next_in_list s c = Inr a"
  shows "scan_bucket fuel s i a req = Inl OutOfFuel \<and> scan_bucket fuel s i c req = Inl OutOfFuel"
proof (induction fuel)
  case 0
  show ?case by simp
next
  case (Suc n)
  then show ?case using assms by simp
qed

lemma alloc_after_cycle_never_returns: "trace_hang fuel = Inl OutOfFuel"
  unfolding trace_hang_def
  apply (simp add: eval_simps cong: bnd_cong_weak)
  apply (subst scan_cycle [where c = "0x107000038" and sa = 16 and sc = 16, THEN conjunct1])
  apply (simp_all add: eval_simps)
  done

section \<open>A provider that refuses\<close>

text \<open>
  C2. \<open>get_new_page\<close> does not test what \<open>extend_heap_segment\<close> returns (as \<open>myinit\<close> does
  for \<open>init_heap_segment\<close>): on NULL it writes the header at address 0. The call does not
  return NULL, it faults.
\<close>

theorem alloc_faults_when_provider_refuses: "trace_refuse = Inl SegFault"
  unfolding trace_refuse_def
  by (simp add: eval_simps cong: bnd_cong_weak)

section \<open>The boundary tags\<close>

text \<open>
  C1. The cycle of C4 leaves a stale head in a bucket. In the run \<open>trace_clobber\<close>, bucket 2
  is the cycle of \<open>c\<close> and \<open>e\<close>; \<open>free(b)\<close> absorbs \<open>c\<close>, and \<open>remove_from_list\<close> sees a
  \<open>prev\<close> link in \<open>c\<close> and leaves the bucket head at \<open>c\<close>. \<open>alloc(32)\<close> then carves the
  merged block into 32 bytes and a garbage block whose header lies where the \<open>prev\<close> link of
  \<open>c\<close> was, and \<open>free(a)\<close>, finding the stale head \<open>c\<close> of equal size, writes the pointer
  \<open>a\<close> over that header. The block of 32 bytes at \<open>0x107000020\<close> then has a successor at
  \<open>0x107000048\<close> (below \<open>max_block\<close>) whose \<open>prev_payload_size\<close> is 0 after masking,
  not 32.
\<close>

theorem prev_payload_size_overwritten_by_link:
  "trace_clobber = Inr (0x107000020, 32, 0x107000048, 0x107000098, 0)"
  unfolding trace_clobber_def
  by (simp add: eval_simps cong: bnd_cong_weak)

section \<open>realloc\<close>


text \<open>
  \<open>myrealloc\<close> has no branch for NULL: it reads the header below address 0 and faults,
  where \<open>mymalloc\<close> of the same size returns the first payload of the heap.
\<close>

lemma realloc_null_faults:
  "trace_realloc_null = Inl SegFault \<and> trace_malloc_first = Inr 0x107000008"
  unfolding trace_realloc_null_def trace_malloc_first_def
  by (simp add: eval_simps cong: bnd_cong_weak)

section \<open>Unlinking the head of a cycle\<close>

text \<open>
  C6. The cycle of C4 again: \<open>a\<close>, \<open>b\<close>, \<open>c\<close>, \<open>d\<close> are blocks of 16 bytes; \<open>a\<close>, then \<open>c\<close>
  are freed, which ties bucket 2 into the cycle \<open>a \<leftrightarrow> c\<close> headed by \<open>a\<close> and sets both flags of
  \<open>b\<close> (header \<open>0x13\<close>). \<open>coalesce b\<close> returns \<open>a\<close> with the size
  \<open>16 + 8 + 16 + 8 + 16 = 64\<close>, but \<open>remove_from_list\<close> found a \<open>prev\<close> link in \<open>c\<close> and then
  in \<open>a\<close> and left \<open>buckets[2]\<close> alone both times: the neighbour \<open>a\<close>, of 16 bytes, is
  still the head of bucket 2 after \<open>coalesce\<close>, and after \<open>myfree b\<close> it is the head of
  bucket 2 and of bucket 4.
\<close>

theorem coalesce_leaves_neighbour_at_head:
  "trace_merge_stale =
     Inr (0x107000008, 0x107000020, 0x107000038, 0x13, 16, 16, 0x107000008, 64,
          0x107000008, 0x107000008, 0x107000008)"
  unfolding trace_merge_stale_def
  by (simp add: eval_simps cong: bnd_cong_weak)

text \<open>
  C5. \<open>p\<close>, \<open>x\<close>, \<open>q\<close>, \<open>z\<close>, \<open>r\<close> are blocks of 16, 64, 16, 64, 16
  bytes; \<open>x\<close>, then \<open>z\<close> are freed, which ties bucket 4 into the cycle \<open>x \<leftrightarrow> z\<close> headed by
  \<open>x\<close>. Now \<open>p\<close> has NEXT_FREE (header \<open>0x12\<close>) and lies below \<open>max_block\<close>, its forward
  neighbour \<open>x\<close> has 64 bytes, and \<open>16 + 64 \<ge> 24 + 16\<close>. \<open>myrealloc p 24\<close> returns \<open>p\<close> with
  the header \<open>0x1a\<close> and puts the remainder \<open>0x107000028\<close> into bucket 3, but
  \<open>remove_from_list\<close> found a \<open>prev\<close> link in \<open>x\<close> and left \<open>buckets[4]\<close> alone: the forward
  neighbour \<open>x = 0x107000020\<close>, where the header of the remainder now lies, is still the
  head of bucket 4.
\<close>

theorem realloc_in_place_leaves_neighbour_at_head:
  "trace_grow_stale =
     Inr (0x107000008, 0x12, 0x107000020, 64, 0x1070000e0, 0x107000020, 0x107000008, 0x1a,
          0x107000020, 0x107000028)"
  unfolding trace_grow_stale_def
  by (simp add: eval_simps cong: bnd_cong_weak)

text \<open>
  C9. \<open>a\<close>, \<open>b\<close>, \<open>c\<close>, \<open>d\<close> are blocks of 16 bytes; \<open>a\<close>, then \<open>c\<close> are
  freed, which ties bucket 2 into the cycle \<open>a \<leftrightarrow> c\<close>. \<open>mymalloc 16\<close> returns \<open>a\<close> and, as
  \<open>a\<close> has a \<open>prev\<close> link, leaves it at the head of bucket 2. \<open>myrealloc a 1\<close> compares 8
  with 16, raises the request to 16 and calls \<open>mymalloc 16\<close>, which returns \<open>a\<close> again; it
  copies \<open>a\<close> onto itself, frees \<open>a\<close> and returns \<open>a\<close>. The pointer returned is the old
  pointer, and the block is free: its header reads \<open>0x80000010\<close>, it is the head of
  bucket 2, and the next \<open>mymalloc 16\<close> returns it once more.
\<close>

theorem realloc_returns_freed_pointer:
  "trace_realloc_stale =
     Inr (0x107000008, 0x107000008, 0x80000010, 0x107000008, 0x107000008)"
  unfolding trace_realloc_stale_def
  by (simp add: eval_simps cong: bnd_cong_weak)

section \<open>A size overwritten by a link\<close>

text \<open>
  C8. A request that fits the size field, in the run \<open>trace_alloc_clobbered\<close>. Freeing \<open>c\<close>, then \<open>e\<close>
  (24 bytes each) ties bucket 2 into a cycle headed by \<open>c = 0x107000fd0\<close>; freeing \<open>b\<close>
  merges \<open>c\<close> into \<open>b\<close> and leaves \<open>c\<close> at the head of bucket 2; \<open>mymalloc 32\<close> takes the
  merged block of 48 bytes and leaves a garbage block of 8 bytes whose header lies at
  \<open>c + 8\<close>; freeing \<open>x\<close>, then \<open>d\<close> merges the garbage block, \<open>d\<close> and \<open>x\<close> into the free
  block \<open>0x107000fe0\<close> of \<open>0x79000020\<close> bytes, the head of bucket 14. \<open>mymalloc 0x79000008\<close>
  takes that block and writes the size into its header at \<open>c + 8\<close>; it then frees the
  remainder of 16 bytes at \<open>0x180000ff0\<close>, which is inserted before the head \<open>c\<close> of
  bucket 2, and \<open>set_prev_in_list c\<close> writes the address of the remainder over that header.
  The call returns \<open>0x107000fe0\<close>, a multiple of 8, with the header \<open>0x80000ff0\<close>: the
  masked size is 4080, less than the request.
\<close>

theorem alloc_size_lost_to_link_write:
  "trace_alloc_clobbered =
     Inr (0x107000fd0, 0x107000fd0, 0x107000fe0, 0x79000020, 0x107000fe0, 0x80000ff0, 4080)"
  unfolding trace_alloc_clobbered_def
  by (simp add: eval_simps cong: bnd_cong_weak)

section \<open>The theorems at concrete heaps\<close>






text \<open>
  The size field has 31 bits. Two blocks of about 1 GiB, the second free: \<open>myrealloc\<close> of
  the first to \<open>0x80000000\<close> bytes grows it in place, and its header then reads
  \<open>0x80000002\<close>: size 0 with the FREE bit.
\<close>

lemma realloc_to_2GiB_loses_size:
  "trace_realloc_huge =
     Inr (0x107001008, 0x3ffffffa, 0x40000ff8, 0x147001008, 0x107001008, 0x80000002, 0)"
  unfolding trace_realloc_huge_def
  by (simp add: eval_simps cong: bnd_cong_weak)

text \<open>
  A request that does not fit the size field: after \<open>myinit\<close>, \<open>mymalloc\<close> of
  \<open>0x80000000\<close> bytes returns \<open>0x107001008\<close> with the header \<open>0x80000002\<close>, whose
  masked size is 0, and the rest of the new pages is a free block at \<open>0x107001010\<close>, inside
  the payload that was handed out.
\<close>

lemma alloc_of_2GiB_loses_size:
  "trace_alloc_huge = Inr (0x107001008, 0x80000002, 0, 0x107001010)"
  unfolding trace_alloc_huge_def
  by (simp add: eval_simps cong: bnd_cong_weak)

lemma heap_init_facts:
  "bnd (Inr heap_init) (\<lambda>s. Inr (seg_base s, seg_pages s, buckets s,
     ptr_at s 0x107000008, ptr_at s 0x107000010,
     bnd (mymalloc 50 s 5) (\<lambda>(s', q). Inr q))) =
   Inr (0x107000000, 1, (\<lambda>i. 0)(9 := 0x107000008), 0, 0, Inr 0x107000008)"
  unfolding heap_init_def
  by (simp add: eval_simps ptr_at_def cong: bnd_cong_weak)

text \<open>The first request on the initial heap, for 5 bytes.\<close>

lemma alloc_size_on_closed_lists_example:
  "free_lists_ok heap_init {0x107000008} \<and> (5 :: size_t) \<noteq> 0 \<and>
   unat (5 :: size_t) \<le> 0x7ffffff8 \<and>
   mymalloc 50 heap_init 5 = Inr (heap_five, 0x107000008) \<and>
   (8 :: nat) dvd 0x107000008 \<and> get_size heap_five 0x107000008 = Inr 16"
proof -
  note f = heap_init_facts [unfolded bnd_Inr sum.inject prod.inject]
  have sb: "seg_base heap_init = 0x107000000" and sp: "seg_pages heap_init = 1"
    and bk: "buckets heap_init = (\<lambda>i. 0)(9 := 0x107000008)"
    and nx: "ptr_at heap_init 0x107000008 = 0" and pv: "ptr_at heap_init 0x107000010 = 0"
    using f by simp_all
  have ok: "free_lists_ok heap_init {0x107000008}"
    unfolding free_lists_ok_def by (simp add: sb sp bk nx pv PAGE_SIZE_def)
  have n: "(5 :: size_t) \<noteq> 0" "unat (5 :: size_t) \<le> 0x7ffffff8" by simp_all
  have "bnd (mymalloc 50 heap_init 5) (\<lambda>(s', q). Inr q) = Inr 0x107000008"
    using f by simp
  then have ret: "mymalloc 50 heap_init 5 = Inr (heap_five, 0x107000008)"
    unfolding heap_five_def by (rule bnd_prod_Inr)
  from alloc_size_on_closed_lists [OF ok n ret]
  have "8 dvd (0x107000008 :: nat)" and "get_size heap_five 0x107000008 = Inr 16"
    by auto
  with ok n ret show ?thesis by (intro conjI)
qed

end
